theory Spec2Isabelle
  imports Complex_Main
begin

section \<open>The object store\<close>

text \<open>
  \<^verbatim>\<open>gameboard.js\<close> keeps a 15 x 15 grid of references to \<^verbatim>\<open>Space\<close> objects. The
  grid shares objects: \<^verbatim>\<open>placeShip\<close> stores the ship's own segments in the grid, and
  \<^verbatim>\<open>autoPlaceShips\<close> copies the outer container only. So objects live in a store and
  the grid holds addresses.
\<close>

datatype error = TypeError

text \<open>
  Modelled from the spec: the class \<^verbatim>\<open>Space\<close> (imported from \<^verbatim>\<open>./space\<close>) is not among
  the sources. A cell has an optional occupant (the field \<^verbatim>\<open>parent\<close>, a reference to a
  ship) and a hit flag \<^verbatim>\<open>isHit\<close>, initially false.
\<close>

record space =
  parent :: "nat option"
  isHit :: bool

text \<open>
  A JavaScript array restricted to integer keys: reading an absent key gives
  \<^verbatim>\<open>undefined\<close> (\<open>None\<close>); writing at or beyond \<^verbatim>\<open>length\<close> extends the array, writing
  a negative key adds an ordinary property and leaves \<^verbatim>\<open>length\<close> alone.
\<close>

record jsarray =
  elems :: "int \<Rightarrow> nat option"
  len :: nat

definition arr_set :: "jsarray \<Rightarrow> int \<Rightarrow> nat \<Rightarrow> jsarray" where
  "arr_set a k v =
     a\<lparr>elems := (elems a)(k \<mapsto> v),
       len := (if int (len a) \<le> k \<and> k < 4294967295 then nat k + 1 else len a)\<rparr>"

text \<open>
  \<^verbatim>\<open>this.board\<close> is an array of rows after the constructor, and the plain object
  \<^verbatim>\<open>{ ...this.board }\<close> after a failed \<^verbatim>\<open>autoPlaceShips\<close>.
\<close>

datatype container = JSArray jsarray | JSObject "int \<Rightarrow> nat option"

record gameboard =
  board :: container
  rows :: "nat \<Rightarrow> jsarray"
  spaces :: "nat \<Rightarrow> space"
  fresh :: nat

text \<open>
  Modelled from the spec: the class \<^verbatim>\<open>Ship\<close> (imported by the callers) is not among the
  sources. A ship is an object, here its address \<open>ship_ref\<close>, with the array \<^verbatim>\<open>hits\<close>
  of its segments, one \<^verbatim>\<open>Space\<close> per unit of length.
\<close>

record ship =
  ship_ref :: nat
  hits :: "nat list"

record position =
  col :: int
  row :: int
  horizontal :: bool

subsection \<open>Space and Ship\<close>

text \<open>
  Modelled from the spec: \<^verbatim>\<open>new Space(parent)\<close> allocates a cell that is not hit;
  \<^verbatim>\<open>new Space()\<close> leaves the occupant undefined.
\<close>

definition new_Space :: "nat option \<Rightarrow> gameboard \<Rightarrow> nat \<times> gameboard" where
  "new_Space p s =
     (fresh s,
      s\<lparr>spaces := (spaces s)(fresh s := \<lparr>parent = p, isHit = False\<rparr>), fresh := fresh s + 1\<rparr>)"

text \<open>
  Modelled from the spec: \<^verbatim>\<open>Space.hit()\<close> marks the cell as hit; hitting a cell that is
  already hit changes nothing.
\<close>

definition hit :: "nat \<Rightarrow> gameboard \<Rightarrow> gameboard" where
  "hit a s = s\<lparr>spaces := (spaces s)(a := (spaces s a)\<lparr>isHit := True\<rparr>)\<rparr>"

text \<open>
  Modelled from the spec: \<^verbatim>\<open>new Ship(length)\<close> creates one segment per unit of length,
  each owned by the ship.
\<close>

fun new_segments :: "nat \<Rightarrow> nat \<Rightarrow> gameboard \<Rightarrow> nat list \<times> gameboard" where
  "new_segments r 0 s = ([], s)"
| "new_segments r (Suc n) s =
     (let (a, s1) = new_Space (Some r) s; (as, s2) = new_segments r n s1 in (a # as, s2))"

definition new_Ship :: "nat \<Rightarrow> nat \<Rightarrow> gameboard \<Rightarrow> ship \<times> gameboard" where
  "new_Ship r n s = (let (as, s1) = new_segments r n s in (\<lparr>ship_ref = r, hits = as\<rparr>, s1))"

section \<open>Gameboard\<close>

subsection \<open>constructor\<close>

text \<open>
  \<^verbatim>\<open>Array.from({ length: 15 }, () => Array.from({ length: 15 }, () => new Space()))\<close>:
  row \<open>r\<close> is the array at row address \<open>r\<close>, and its cells are 15 new spaces, allocated
  row by row from the first free address of the store the constructor starts from.
\<close>

definition new_row :: "nat \<Rightarrow> jsarray" where
  "new_row base =
     \<lparr>elems = (\<lambda>k. if 0 \<le> k \<and> k < 15 then Some (base + nat k) else None), len = 15\<rparr>"

definition constructor :: "(nat \<Rightarrow> space) \<Rightarrow> nat \<Rightarrow> gameboard" where
  "constructor h f =
     \<lparr>board = JSArray \<lparr>elems = (\<lambda>r. if 0 \<le> r \<and> r < 15 then Some (nat r) else None), len = 15\<rparr>,
      rows = (\<lambda>r. new_row (f + 15 * r)),
      spaces = (\<lambda>a. if f \<le> a \<and> a < f + 225 then \<lparr>parent = None, isHit = False\<rparr> else h a),
      fresh = f + 225\<rparr>"

subsection \<open>Reading the grid\<close>

definition board_get :: "container \<Rightarrow> int \<Rightarrow> nat option" where
  "board_get b k = (case b of JSArray a \<Rightarrow> elems a k | JSObject m \<Rightarrow> m k)"

text \<open>\<^verbatim>\<open>this.board[r]\<close>: the row array, or \<open>None\<close> for \<^verbatim>\<open>undefined\<close>.\<close>

definition getRow :: "gameboard \<Rightarrow> int \<Rightarrow> jsarray option" where
  "getRow s r = map_option (rows s) (board_get (board s) r)"

text \<open>The address stored at column \<open>c\<close> of row \<open>r\<close>, if both exist.\<close>

definition cell :: "gameboard \<Rightarrow> int \<Rightarrow> int \<Rightarrow> nat option" where
  "cell s c r = (case getRow s r of None \<Rightarrow> None | Some a \<Rightarrow> elems a c)"

text \<open>A \<^verbatim>\<open>parent\<close> is truthy exactly when it is a ship.\<close>

definition occupied :: "gameboard \<Rightarrow> nat \<Rightarrow> bool" where
  "occupied s a = (parent (spaces s a) \<noteq> None)"

text \<open>\<^verbatim>\<open>board[r][c].parent\<close>: throws when the row or the cell is undefined.\<close>

definition strict_parent :: "gameboard \<Rightarrow> int \<Rightarrow> int \<Rightarrow> error + bool" where
  "strict_parent s r c =
     (case getRow s r of None \<Rightarrow> Inl TypeError
      | Some a \<Rightarrow> (case elems a c of None \<Rightarrow> Inl TypeError | Some x \<Rightarrow> Inr (occupied s x)))"

text \<open>\<^verbatim>\<open>board[r]?.[c].parent\<close>: an undefined row is skipped, an undefined cell throws.\<close>

definition opt_row_parent :: "gameboard \<Rightarrow> int \<Rightarrow> int \<Rightarrow> error + bool" where
  "opt_row_parent s r c =
     (case getRow s r of None \<Rightarrow> Inr False
      | Some a \<Rightarrow> (case elems a c of None \<Rightarrow> Inl TypeError | Some x \<Rightarrow> Inr (occupied s x)))"

text \<open>\<^verbatim>\<open>board[r][c]?.parent\<close>: an undefined row throws, an undefined cell is skipped.\<close>

definition opt_cell_parent :: "gameboard \<Rightarrow> int \<Rightarrow> int \<Rightarrow> error + bool" where
  "opt_cell_parent s r c =
     (case getRow s r of None \<Rightarrow> Inl TypeError
      | Some a \<Rightarrow> (case elems a c of None \<Rightarrow> Inr False | Some x \<Rightarrow> Inr (occupied s x)))"

text \<open>\<^verbatim>\<open>board[r]?.[c]?.parent\<close>: an undefined row or cell is skipped.\<close>

definition opt_both_parent :: "gameboard \<Rightarrow> int \<Rightarrow> int \<Rightarrow> error + bool" where
  "opt_both_parent s r c =
     (case getRow s r of None \<Rightarrow> Inr False
      | Some a \<Rightarrow> (case elems a c of None \<Rightarrow> Inr False | Some x \<Rightarrow> Inr (occupied s x)))"

text \<open>\<^verbatim>\<open>a[c] = x\<close> for the row array \<open>a\<close> at address \<open>rr\<close>.\<close>

definition row_write :: "gameboard \<Rightarrow> nat \<Rightarrow> int \<Rightarrow> nat \<Rightarrow> gameboard" where
  "row_write s rr c x = s\<lparr>rows := (rows s)(rr := arr_set (rows s rr) c x)\<rparr>"

subsection \<open>canPlace\<close>

text \<open>
  A run of \<^verbatim>\<open>if (e) return false;\<close> statements: the first test that throws or is
  truthy decides, \<open>Inr False\<close> means that none was truthy.
\<close>

fun first_truthy :: "(error + bool) list \<Rightarrow> error + bool" where
  "first_truthy [] = Inr False"
| "first_truthy (Inl e # ts) = Inl e"
| "first_truthy (Inr True # ts) = Inr True"
| "first_truthy (Inr False # ts) = first_truthy ts"

text \<open>
  The tests of one loop iteration at \<^verbatim>\<open>currentRow\<close> \<open>r\<close> and \<^verbatim>\<open>currentCol\<close> \<open>c\<close>: the
  cell itself, then the four tests with offset \<open>-1\<close>, then the four with offset \<open>1\<close>.
\<close>

definition blocked :: "gameboard \<Rightarrow> int \<Rightarrow> int \<Rightarrow> error + bool" where
  "blocked s r c =
     first_truthy
       [strict_parent s r c,
        opt_row_parent s (r + (- 1)) c,
        opt_cell_parent s r (c + (- 1)),
        opt_both_parent s (r + (- 1)) (c + (- 1)),
        opt_both_parent s (r + (- 1)) (c - (- 1)),
        opt_row_parent s (r + 1) c,
        opt_cell_parent s r (c + 1),
        opt_both_parent s (r + 1) (c + 1),
        opt_both_parent s (r + 1) (c - 1)]"

text \<open>
  \<^verbatim>\<open>row + (!horizontal && i)\<close> and \<^verbatim>\<open>col + (horizontal && i)\<close>: the boolean \<^verbatim>\<open>false\<close>
  adds 0.
\<close>

definition row_at :: "position \<Rightarrow> int \<Rightarrow> int" where
  "row_at p i = row p + (if horizontal p then 0 else i)"

definition col_at :: "position \<Rightarrow> int \<Rightarrow> int" where
  "col_at p i = col p + (if horizontal p then i else 0)"

fun canPlace_loop :: "gameboard \<Rightarrow> position \<Rightarrow> nat list \<Rightarrow> error + bool" where
  "canPlace_loop s p [] = Inr True"
| "canPlace_loop s p (i # is) =
     (case blocked s (row_at p (int i)) (col_at p (int i)) of
        Inl e \<Rightarrow> Inl e
      | Inr True \<Rightarrow> Inr False
      | Inr False \<Rightarrow> canPlace_loop s p is)"

definition canPlace :: "gameboard \<Rightarrow> position \<Rightarrow> ship \<Rightarrow> error + bool" where
  "canPlace s p sh =
     (let maxRow = row_at p (int (length (hits sh)) - 1);
          maxCol = col_at p (int (length (hits sh)) - 1)
      in if maxCol > 14 \<or> maxRow > 14 then Inr False
         else canPlace_loop s p [0..<length (hits sh)])"

subsection \<open>placeShip\<close>

text \<open>
  \<^verbatim>\<open>ship.hits.forEach((space, i) => { this.board[...][...] = space; })\<close>: an undefined
  row throws, a defined row is written at any column.
\<close>

fun placeShip_loop :: "gameboard \<Rightarrow> position \<Rightarrow> (nat \<times> nat) list \<Rightarrow> error + gameboard" where
  "placeShip_loop s p [] = Inr s"
| "placeShip_loop s p ((space, i) # rest) =
     (case board_get (board s) (row_at p (int i)) of
        None \<Rightarrow> Inl TypeError
      | Some rr \<Rightarrow>
          placeShip_loop (row_write s rr (col_at p (int i)) space) p rest)"

definition placeShip :: "gameboard \<Rightarrow> position \<Rightarrow> ship \<Rightarrow> error + gameboard" where
  "placeShip s p sh = placeShip_loop s p (zip (hits sh) [0..<length (hits sh)])"

subsection \<open>Numbers\<close>

text \<open>
  A JavaScript number is an IEEE 754 binary64 value: a multiple \<open>m * 2 ^ e\<close> with a
  significand of at most 53 bits. The coordinates are integers far below \<open>2 ^ 53\<close>, on
  which the arithmetic of the code is exact; the product \<^verbatim>\<open>Math.random() * 15\<close> is the
  exact product rounded to the nearest binary64 value, ties to the even significand.
\<close>

definition pow2 :: "int \<Rightarrow> real" where
  "pow2 e = (if 0 \<le> e then 2 ^ nat e else 1 / 2 ^ nat (- e))"

definition binary64 :: "real \<Rightarrow> bool" where
  "binary64 x \<longleftrightarrow> (\<exists>m e. x = of_int m * pow2 e \<and> \<bar>m\<bar> < 2 ^ 53 \<and> - 1074 \<le> e \<and> e \<le> 971)"

text \<open>
  The exponent \<open>e\<close> with \<open>2 ^ e \<le> p < 2 ^ (e + 1)\<close>, found by halving or doubling; below
  the normal range the exponent is \<open>-1022\<close>.
\<close>

fun exponent_search :: "nat \<Rightarrow> real \<Rightarrow> int" where
  "exponent_search 0 p = 0"
| "exponent_search (Suc n) p =
     (if 2 \<le> p then exponent_search n (p / 2) + 1
      else if p < 1 then exponent_search n (p * 2) - 1
      else 0)"

definition binade :: "real \<Rightarrow> int" where
  "binade p = max (- 1022) (exponent_search 2100 p)"

definition round_half_even :: "real \<Rightarrow> int" where
  "round_half_even q =
     (let f = \<lfloor>q\<rfloor> in
      if q - of_int f < 1 / 2 then f
      else if 1 / 2 < q - of_int f then f + 1
      else if even f then f else f + 1)"

text \<open>
  The binary64 value nearest to a real \<open>p\<close> with \<open>0 \<le> p < 2 ^ 1024\<close>: \<open>p\<close> is rounded
  to a multiple of the spacing \<open>2 ^ (e - 52)\<close> of its binade.
\<close>

definition fl :: "real \<Rightarrow> real" where
  "fl p = (let u = pow2 (binade p - 52) in of_int (round_half_even (p / u)) * u)"

subsection \<open>findValidPosition\<close>

text \<open>
  The random source is the sequence of the results of \<^verbatim>\<open>Math.random()\<close>; \<open>k\<close> counts
  the calls made so far. One attempt makes three calls: column, row, orientation.
  \<^verbatim>\<open>Math.floor(Math.random() * 15)\<close> floors the rounded product.
\<close>

type_synonym rng = "nat \<Rightarrow> real"

definition sample :: "rng \<Rightarrow> nat \<Rightarrow> position" where
  "sample rnd k =
     \<lparr>col = \<lfloor>fl (rnd k * 15)\<rfloor>, row = \<lfloor>fl (rnd (k + 1) * 15)\<rfloor>,
      horizontal = (rnd (k + 2) < 0.5)\<rparr>"

definition maxIterations :: nat where
  "maxIterations = 100000"

fun findValidPosition_loop ::
  "gameboard \<Rightarrow> ship \<Rightarrow> rng \<Rightarrow> nat \<Rightarrow> nat \<Rightarrow> error + (position option \<times> nat)" where
  "findValidPosition_loop s sh rnd k 0 = Inr (None, k)"
| "findValidPosition_loop s sh rnd k (Suc n) =
     (case canPlace s (sample rnd k) sh of
        Inl e \<Rightarrow> Inl e
      | Inr True \<Rightarrow> Inr (Some (sample rnd k), k + 3)
      | Inr False \<Rightarrow> findValidPosition_loop s sh rnd (k + 3) n)"

definition findValidPosition ::
  "gameboard \<Rightarrow> ship \<Rightarrow> rng \<Rightarrow> nat \<Rightarrow> error + (position option \<times> nat)" where
  "findValidPosition s sh rnd k = findValidPosition_loop s sh rnd k maxIterations"

subsection \<open>autoPlaceShips\<close>

text \<open>
  \<^verbatim>\<open>{ ...this.board }\<close> is a new plain object with the container's own properties: the
  same row addresses under the same keys.
\<close>

definition spread :: "container \<Rightarrow> container" where
  "spread b = JSObject (board_get b)"

fun autoPlaceShips_loop ::
  "gameboard \<Rightarrow> container \<Rightarrow> ship list \<Rightarrow> rng \<Rightarrow> nat \<Rightarrow> error + (bool \<times> gameboard \<times> nat)" where
  "autoPlaceShips_loop s backupBoard [] rnd k = Inr (True, s, k)"
| "autoPlaceShips_loop s backupBoard (sh # ships) rnd k =
     (case findValidPosition s sh rnd k of
        Inl e \<Rightarrow> Inl e
      | Inr (None, k') \<Rightarrow> Inr (False, s\<lparr>board := backupBoard\<rparr>, k')
      | Inr (Some p, k') \<Rightarrow>
          (case placeShip s p sh of
             Inl e \<Rightarrow> Inl e
           | Inr s' \<Rightarrow> autoPlaceShips_loop s' backupBoard ships rnd k'))"

definition autoPlaceShips ::
  "gameboard \<Rightarrow> ship list \<Rightarrow> rng \<Rightarrow> nat \<Rightarrow> error + (bool \<times> gameboard \<times> nat)" where
  "autoPlaceShips s ships rnd k = autoPlaceShips_loop s (spread (board s)) ships rnd k"

subsection \<open>receiveAttack, checkHit\<close>

definition receiveAttack :: "gameboard \<Rightarrow> int \<Rightarrow> int \<Rightarrow> error + (nat option \<times> gameboard)" where
  "receiveAttack s c r =
     (case getRow s r of None \<Rightarrow> Inl TypeError
      | Some a \<Rightarrow>
          (case elems a c of None \<Rightarrow> Inl TypeError
           | Some x \<Rightarrow>
               (let s' = hit x s in
                case getRow s' r of None \<Rightarrow> Inl TypeError
                | Some a' \<Rightarrow>
                    (case elems a' c of None \<Rightarrow> Inl TypeError
                     | Some y \<Rightarrow> Inr (parent (spaces s' y), s')))))"

definition checkHit :: "gameboard \<Rightarrow> int \<Rightarrow> int \<Rightarrow> error + bool" where
  "checkHit s c r =
     (case getRow s r of None \<Rightarrow> Inl TypeError
      | Some a \<Rightarrow> (case elems a c of None \<Rightarrow> Inl TypeError | Some x \<Rightarrow> Inr (isHit (spaces s x))))"

subsection \<open>resetBoard\<close>

text \<open>
  \<^verbatim>\<open>forEach\<close> visits the indices below the array's length that are present. A plain
  object has no \<^verbatim>\<open>forEach\<close>: calling it throws.
\<close>

fun resetRow_loop :: "gameboard \<Rightarrow> nat \<Rightarrow> int \<Rightarrow> nat list \<Rightarrow> error + gameboard" where
  "resetRow_loop s rr i [] = Inr s"
| "resetRow_loop s rr i (j # js) =
     (case elems (rows s rr) (int j) of
        None \<Rightarrow> resetRow_loop s rr i js
      | Some space \<Rightarrow>
          (case board_get (board s) i of
             None \<Rightarrow> Inl TypeError
           | Some tr \<Rightarrow>
               (let (a, s1) = new_Space None s in
                resetRow_loop (row_write s1 tr (int j) a) rr i js)))"

fun resetBoard_loop :: "gameboard \<Rightarrow> nat list \<Rightarrow> error + gameboard" where
  "resetBoard_loop s [] = Inr s"
| "resetBoard_loop s (i # is) =
     (case board_get (board s) (int i) of
        None \<Rightarrow> resetBoard_loop s is
      | Some rr \<Rightarrow>
          (case resetRow_loop s rr (int i) [0..<len (rows s rr)] of
             Inl e \<Rightarrow> Inl e
           | Inr s' \<Rightarrow> resetBoard_loop s' is))"

definition resetBoard :: "gameboard \<Rightarrow> error + gameboard" where
  "resetBoard s =
     (case board s of
        JSObject m \<Rightarrow> Inl TypeError
      | JSArray a \<Rightarrow> resetBoard_loop s [0..<len a])"


section \<open>Notions of the specification\<close>

subsection \<open>Cells, occupants and footprints\<close>

text \<open>The occupant of the cell at column \<open>c\<close> and row \<open>r\<close>: the ship its space belongs to.\<close>

definition occupant :: "gameboard \<Rightarrow> int \<Rightarrow> int \<Rightarrow> nat option" where
  "occupant s c r = (case cell s c r of None \<Rightarrow> None | Some x \<Rightarrow> parent (spaces s x))"

definition in_grid :: "int \<Rightarrow> int \<Rightarrow> bool" where
  "in_grid c r = (0 \<le> c \<and> c < 15 \<and> 0 \<le> r \<and> r < 15)"

text \<open>
  The shape the constructor builds and the operations keep: rows 0 to 14 exist and are
  15 different arrays, each with exactly the cells 0 to 14.
\<close>

definition wf_board :: "gameboard \<Rightarrow> bool" where
  "wf_board s \<longleftrightarrow>
     (\<forall>r. (board_get (board s) r \<noteq> None) = (0 \<le> r \<and> r < 15)) \<and>
     (\<forall>r r' rr. board_get (board s) r = Some rr \<longrightarrow>
        board_get (board s) r' = Some rr \<longrightarrow> r = r') \<and>
     (\<forall>r rr. board_get (board s) r = Some rr \<longrightarrow>
        len (rows s rr) = 15 \<and> (\<forall>c. (elems (rows s rr) c \<noteq> None) = (0 \<le> c \<and> c < 15))) \<and>
     (case board s of JSArray a \<Rightarrow> len a = 15 | JSObject m \<Rightarrow> True)"

text \<open>The cells a ship of length \<open>n\<close> would occupy at a position, as (column, row).\<close>

definition footprint :: "position \<Rightarrow> nat \<Rightarrow> (int \<times> int) list" where
  "footprint p n = map (\<lambda>i. (col_at p (int i), row_at p (int i))) [0..<n]"

text \<open>The 8 neighbours of a cell, orthogonal and diagonal.\<close>

definition neighbours :: "int \<times> int \<Rightarrow> (int \<times> int) list" where
  "neighbours cr =
     [(fst cr - 1, snd cr - 1), (fst cr, snd cr - 1), (fst cr + 1, snd cr - 1),
      (fst cr - 1, snd cr), (fst cr + 1, snd cr),
      (fst cr - 1, snd cr + 1), (fst cr, snd cr + 1), (fst cr + 1, snd cr + 1)]"

text \<open>
  The three rules of the specification for \<^verbatim>\<open>canPlace\<close>: the last cell is at most 14 in
  both axes, no cell of the footprint is occupied, and no neighbour inside the grid of
  a cell of the footprint is occupied.
\<close>

definition canPlace_spec :: "gameboard \<Rightarrow> position \<Rightarrow> nat \<Rightarrow> bool" where
  "canPlace_spec s p n \<longleftrightarrow>
     col_at p (int n - 1) \<le> 14 \<and> row_at p (int n - 1) \<le> 14 \<and>
     (\<forall>cr \<in> set (footprint p n). occupant s (fst cr) (snd cr) = None) \<and>
     (\<forall>cr \<in> set (footprint p n). \<forall>nb \<in> set (neighbours cr).
        in_grid (fst nb) (snd nb) \<longrightarrow> occupant s (fst nb) (snd nb) = None)"

text \<open>A cell is touched when it or one of its 8 neighbours is occupied.\<close>

definition touched :: "gameboard \<Rightarrow> int \<Rightarrow> int \<Rightarrow> bool" where
  "touched s c r \<longleftrightarrow>
     occupant s c r \<noteq> None \<or>
     (\<exists>nb \<in> set (neighbours (c, r)). occupant s (fst nb) (snd nb) \<noteq> None)"

subsection \<open>Ships\<close>

text \<open>
  Modelled from the spec: every segment of a ship is owned by the ship (its
  \<^verbatim>\<open>parent\<close> is the ship).
\<close>

definition segments_owned :: "gameboard \<Rightarrow> ship \<Rightarrow> bool" where
  "segments_owned s sh \<longleftrightarrow> (\<forall>x \<in> set (hits sh). parent (spaces s x) = Some (ship_ref sh))"

text \<open>A ship no segment of which is hit.\<close>

definition unhit :: "gameboard \<Rightarrow> ship \<Rightarrow> bool" where
  "unhit s sh \<longleftrightarrow> (\<forall>x \<in> set (hits sh). \<not> isHit (spaces s x))"

text \<open>Two cells are near when they are equal or neighbours, orthogonally or diagonally.\<close>

definition near :: "int \<times> int \<Rightarrow> int \<times> int \<Rightarrow> bool" where
  "near a b \<longleftrightarrow> \<bar>fst a - fst b\<bar> \<le> 1 \<and> \<bar>snd a - snd b\<bar> \<le> 1"

subsection \<open>The random source\<close>

text \<open>\<^verbatim>\<open>Math.random()\<close> returns a binary64 value that is at least 0 and less than 1.\<close>

definition unit_interval :: "rng \<Rightarrow> bool" where
  "unit_interval rnd \<longleftrightarrow> (\<forall>i. binary64 (rnd i) \<and> 0 \<le> rnd i \<and> rnd i < 1)"

text \<open>The position of attempt \<open>j\<close> of a search that starts after \<open>k\<close> calls of the random source.\<close>

definition attempt :: "rng \<Rightarrow> nat \<Rightarrow> nat \<Rightarrow> position" where
  "attempt rnd k j = sample rnd (k + 3 * j)"

text \<open>The binary64 value nearest to 0.6.\<close>

definition six_tenths :: real where
  "six_tenths = 5404319552844595 / 9007199254740992"

subsection \<open>Sequences of operations\<close>

text \<open>
  What a placement allowed by \<^verbatim>\<open>canPlace\<close> keeps: the shape of the board, the
  container, the store, and the content of every occupied cell.
\<close>

definition grows :: "gameboard \<Rightarrow> gameboard \<Rightarrow> bool" where
  "grows s t \<longleftrightarrow>
     wf_board t \<and> board t = board s \<and> spaces t = spaces s \<and> fresh t = fresh s \<and>
     (\<forall>c r x. cell s c r = Some x \<longrightarrow> occupied s x \<longrightarrow> cell t c r = Some x)"

text \<open>A cell that holds a space of its own that is neither occupied nor hit.\<close>

definition cleared :: "gameboard \<Rightarrow> int \<Rightarrow> int \<Rightarrow> bool" where
  "cleared s c r \<longleftrightarrow>
     (\<exists>x. cell s c r = Some x \<and> x < fresh s \<and> spaces s x = \<lparr>parent = None, isHit = False\<rparr>)"

text \<open>
  The boards reachable by placements and attacks: from a new board, by creating ships,
  by \<^verbatim>\<open>placeShip\<close> where \<^verbatim>\<open>canPlace\<close> allows it or where all target cells are inside the
  grid, by \<^verbatim>\<open>receiveAttack\<close>, by an \<^verbatim>\<open>autoPlaceShips\<close> that places all ships, and by
  \<^verbatim>\<open>resetBoard\<close>.
\<close>

inductive reachable :: "gameboard \<Rightarrow> bool" where
  init: "reachable (constructor h f)"
| ship: "reachable s \<Longrightarrow> reachable (snd (new_Ship r n s))"
| place: "reachable s \<Longrightarrow> canPlace s p sh = Inr True \<Longrightarrow> placeShip s p sh = Inr s' \<Longrightarrow> reachable s'"
| place_within:
    "reachable s \<Longrightarrow> \<forall>i < length (hits sh). in_grid (col_at p (int i)) (row_at p (int i)) \<Longrightarrow>
     placeShip s p sh = Inr s' \<Longrightarrow> reachable s'"
| attack: "reachable s \<Longrightarrow> receiveAttack s c r = Inr (res, s') \<Longrightarrow> reachable s'"
| auto: "reachable s \<Longrightarrow> autoPlaceShips s ships rnd k = Inr (True, s', k') \<Longrightarrow> reachable s'"
| reset: "reachable s \<Longrightarrow> resetBoard s = Inr s' \<Longrightarrow> reachable s'"

text \<open>
  One operation that changes the board, other than \<^verbatim>\<open>resetBoard\<close>: a placement that
  \<^verbatim>\<open>canPlace\<close> allows, an attack, or an \<^verbatim>\<open>autoPlaceShips\<close> with either result.
\<close>

inductive op_step :: "gameboard \<Rightarrow> gameboard \<Rightarrow> bool" where
  place: "canPlace s p sh = Inr True \<Longrightarrow> placeShip s p sh = Inr s' \<Longrightarrow> op_step s s'"
| attack: "receiveAttack s c r = Inr (res, s') \<Longrightarrow> op_step s s'"
| auto: "autoPlaceShips s ships rnd k = Inr (ok, s', k') \<Longrightarrow> op_step s s'"

subsection \<open>A new board with two ships\<close>

text \<open>The board is built on an empty store.\<close>

definition empty_store :: "nat \<Rightarrow> space" where
  "empty_store = (\<lambda>a. \<lparr>parent = None, isHit = False\<rparr>)"

definition start :: gameboard where
  "start = constructor empty_store 0"

text \<open>A ship of length 1 created after the board.\<close>

definition patrol :: ship where
  "patrol = fst (new_Ship 1 1 start)"

definition harbour :: gameboard where
  "harbour = snd (new_Ship 1 1 start)"

text \<open>A ship of length 16, created after the ship of length 1.\<close>

definition carrier :: ship where
  "carrier = fst (new_Ship 2 16 harbour)"

definition fleet :: gameboard where
  "fleet = snd (new_Ship 2 16 harbour)"

text \<open>A ship of length 2, created last.\<close>

definition cutter :: ship where
  "cutter = fst (new_Ship 3 2 fleet)"

definition armada :: gameboard where
  "armada = snd (new_Ship 3 2 fleet)"

section \<open>The shape of the board\<close>

lemma wf_constructor: "wf_board (constructor h f)"
  unfolding wf_board_def constructor_def board_get_def new_row_def
  by (auto split: if_splits)

lemma wf_start: "wf_board start"
  unfolding start_def by (rule wf_constructor)

lemma wf_row_ex: "wf_board s \<Longrightarrow> 0 \<le> r \<Longrightarrow> r < 15 \<Longrightarrow> \<exists>rr. board_get (board s) r = Some rr"
  unfolding wf_board_def by (metis option.exhaust)

lemma wf_row_range: "wf_board s \<Longrightarrow> board_get (board s) r = Some rr \<Longrightarrow> 0 \<le> r \<and> r < 15"
  unfolding wf_board_def by (metis option.distinct(1))

lemma wf_row_inj:
  "wf_board s \<Longrightarrow> board_get (board s) r = Some rr \<Longrightarrow> board_get (board s) r' = Some rr \<Longrightarrow> r = r'"
  unfolding wf_board_def by blast

lemma wf_row_len: "wf_board s \<Longrightarrow> board_get (board s) r = Some rr \<Longrightarrow> len (rows s rr) = 15"
  unfolding wf_board_def by blast

lemma wf_col_ex:
  "wf_board s \<Longrightarrow> board_get (board s) r = Some rr \<Longrightarrow> 0 \<le> c \<Longrightarrow> c < 15 \<Longrightarrow>
   \<exists>x. elems (rows s rr) c = Some x"
  unfolding wf_board_def by (metis option.exhaust)

lemma wf_col_range:
  "wf_board s \<Longrightarrow> board_get (board s) r = Some rr \<Longrightarrow> elems (rows s rr) c = Some x \<Longrightarrow>
   0 \<le> c \<and> c < 15"
  unfolding wf_board_def by (metis option.distinct(1))

lemma wf_cell_Some: "wf_board s \<Longrightarrow> in_grid c r \<Longrightarrow> \<exists>x. cell s c r = Some x"
  unfolding in_grid_def cell_def getRow_def
  using wf_row_ex[of s r] wf_col_ex[of s r _ c] by fastforce

lemma wf_cell_None: "wf_board s \<Longrightarrow> \<not> in_grid c r \<Longrightarrow> cell s c r = None"
  unfolding in_grid_def cell_def getRow_def
  using wf_row_range[of s r] wf_col_range[of s r _ c]
  by (fastforce split: option.splits)

lemma wf_occupant_outside: "wf_board s \<Longrightarrow> \<not> in_grid c r \<Longrightarrow> occupant s c r = None"
  by (simp add: occupant_def wf_cell_None)

section \<open>Properties of canPlace\<close>

lemma opt_both_parent_eq: "opt_both_parent s r c = Inr (occupant s c r \<noteq> None)"
  by (simp add: opt_both_parent_def occupant_def cell_def occupied_def split: option.splits)

lemma opt_row_parent_eq:
  "wf_board s \<Longrightarrow> 0 \<le> c \<Longrightarrow> c < 15 \<Longrightarrow> opt_row_parent s r c = Inr (occupant s c r \<noteq> None)"
  unfolding opt_row_parent_def occupant_def cell_def occupied_def getRow_def
  using wf_col_ex[of s r _ c]
  by (fastforce split: option.splits)

lemma opt_cell_parent_eq:
  "wf_board s \<Longrightarrow> 0 \<le> r \<Longrightarrow> r < 15 \<Longrightarrow> opt_cell_parent s r c = Inr (occupant s c r \<noteq> None)"
  unfolding opt_cell_parent_def occupant_def cell_def occupied_def getRow_def
  using wf_row_ex[of s r]
  by (fastforce split: option.splits)

lemma strict_parent_eq:
  "wf_board s \<Longrightarrow> in_grid c r \<Longrightarrow> strict_parent s r c = Inr (occupant s c r \<noteq> None)"
  unfolding strict_parent_def occupant_def cell_def occupied_def getRow_def in_grid_def
  using wf_row_ex[of s r] wf_col_ex[of s r _ c]
  by (fastforce split: option.splits)

lemma first_truthy_Inr: "first_truthy (Inr b # ts) = (if b then Inr True else first_truthy ts)"
  by (cases b) simp_all

lemma blocked_eq:
  assumes "wf_board s" "in_grid c r"
  shows "blocked s r c = Inr (touched s c r)"
proof -
  from assms(2) have b: "0 \<le> c" "c < 15" "0 \<le> r" "r < 15" by (auto simp: in_grid_def)
  show ?thesis
    unfolding blocked_def
    by (simp add: strict_parent_eq[OF assms] opt_both_parent_eq opt_row_parent_eq[OF assms(1) b(1,2)]
        opt_cell_parent_eq[OF assms(1) b(3,4)] first_truthy_Inr touched_def neighbours_def)
qed


lemma canPlace_loop_eq:
  assumes "wf_board s" "\<forall>i \<in> set is. in_grid (col_at p (int i)) (row_at p (int i))"
  shows "canPlace_loop s p is = Inr (\<forall>i \<in> set is. \<not> touched s (col_at p (int i)) (row_at p (int i)))"
  using assms(2)
proof (induction "is")
  case Nil
  then show ?case by simp
next
  case (Cons i "is")
  then show ?case
    by (cases "touched s (col_at p (int i)) (row_at p (int i))")
       (simp_all add: blocked_eq[OF assms(1)])
qed

lemma touched_spec:
  assumes "wf_board s"
  shows "touched s c r \<longleftrightarrow>
    \<not> (occupant s c r = None \<and>
       (\<forall>nb \<in> set (neighbours (c, r)). in_grid (fst nb) (snd nb) \<longrightarrow> occupant s (fst nb) (snd nb) = None))"
proof -
  have "\<And>a b. occupant s a b \<noteq> None \<Longrightarrow> in_grid a b"
    using wf_occupant_outside[OF assms] by metis
  then show ?thesis unfolding touched_def by metis
qed

lemma footprint_in_grid:
  assumes "0 \<le> col p" "0 \<le> row p" "col_at p (int n - 1) \<le> 14" "row_at p (int n - 1) \<le> 14" "i < n"
  shows "in_grid (col_at p (int i)) (row_at p (int i))"
  using assms by (auto simp: in_grid_def col_at_def row_at_def split: if_splits)

lemma canPlace_eq:
  assumes "wf_board s" "0 \<le> col p" "0 \<le> row p"
  shows "canPlace s p sh = Inr (canPlace_spec s p (length (hits sh)))"
proof (cases "col_at p (int (length (hits sh)) - 1) \<le> 14 \<and> row_at p (int (length (hits sh)) - 1) \<le> 14")
  case False
  then show ?thesis by (auto simp: canPlace_def canPlace_spec_def Let_def)
next
  case True
  have g: "\<forall>i \<in> set [0..<length (hits sh)]. in_grid (col_at p (int i)) (row_at p (int i))"
  proof
    fix i assume "i \<in> set [0..<length (hits sh)]"
    then have "i < length (hits sh)" by simp
    then show "in_grid (col_at p (int i)) (row_at p (int i))"
      using footprint_in_grid[OF assms(2,3)] True by blast
  qed
  have "canPlace s p sh = canPlace_loop s p [0..<length (hits sh)]"
    using True by (auto simp: canPlace_def Let_def)
  also have "\<dots> = Inr (\<forall>i \<in> set [0..<length (hits sh)]. \<not> touched s (col_at p (int i)) (row_at p (int i)))"
    by (rule canPlace_loop_eq[OF assms(1) g])
  also have "(\<forall>i \<in> set [0..<length (hits sh)]. \<not> touched s (col_at p (int i)) (row_at p (int i)))
      = canPlace_spec s p (length (hits sh))"
    using True unfolding canPlace_spec_def footprint_def touched_spec[OF assms(1)] by auto
  finally show ?thesis .
qed


lemmas grid_defs =
  start_def constructor_def empty_store_def new_row_def board_get_def getRow_def cell_def
  occupant_def occupied_def row_at_def col_at_def

lemmas canPlace_defs =
  canPlace_def blocked_def strict_parent_def opt_row_parent_def opt_cell_parent_def
  opt_both_parent_def

section \<open>Properties of placeShip\<close>

lemma row_write_fields [simp]:
  "board (row_write s rr c x) = board s"
  "spaces (row_write s rr c x) = spaces s"
  "fresh (row_write s rr c x) = fresh s"
  by (simp_all add: row_write_def)

lemma rows_row_write:
  "rows (row_write s rr c x) rr' = (if rr' = rr then arr_set (rows s rr) c x else rows s rr')"
  by (simp add: row_write_def)

lemma wf_row_write:
  assumes "wf_board s" "board_get (board s) r = Some rr" "0 \<le> c" "c < 15"
  shows "wf_board (row_write s rr c x)"
proof -
  have l: "len (rows s rr) = 15" using wf_row_len[OF assms(1,2)] .
  have e: "\<And>c'. (elems (rows s rr) c' \<noteq> None) = (0 \<le> c' \<and> c' < 15)"
    using assms(1,2) unfolding wf_board_def by blast
  have a: "len (arr_set (rows s rr) c x) = 15"
    using l assms(3,4) by (simp add: arr_set_def)
  have b: "\<And>c'. (elems (arr_set (rows s rr) c x) c' \<noteq> None) = (0 \<le> c' \<and> c' < 15)"
    using e assms(3,4) by (auto simp: arr_set_def)
  have c: "\<forall>r' rr'. board_get (board s) r' = Some rr' \<longrightarrow>
        len (rows (row_write s rr c x) rr') = 15 \<and>
        (\<forall>c'. (elems (rows (row_write s rr c x) rr') c' \<noteq> None) = (0 \<le> c' \<and> c' < 15))"
  proof (intro allI impI)
    fix r' rr' assume h: "board_get (board s) r' = Some rr'"
    show "len (rows (row_write s rr c x) rr') = 15 \<and>
        (\<forall>c'. (elems (rows (row_write s rr c x) rr') c' \<noteq> None) = (0 \<le> c' \<and> c' < 15))"
    proof (cases "rr' = rr")
      case True
      then show ?thesis using a b by (simp add: rows_row_write)
    next
      case False
      then show ?thesis using assms(1) h unfolding wf_board_def by (simp add: rows_row_write)
    qed
  qed
  have d: "(\<forall>r. (board_get (board s) r \<noteq> None) = (0 \<le> r \<and> r < 15)) \<and>
     (\<forall>r r' rr. board_get (board s) r = Some rr \<longrightarrow>
        board_get (board s) r' = Some rr \<longrightarrow> r = r') \<and>
     (case board s of JSArray a \<Rightarrow> len a = 15 | JSObject m \<Rightarrow> True)"
    using assms(1) unfolding wf_board_def by blast
  show ?thesis
    unfolding wf_board_def row_write_fields using c d by blast
qed

lemma cell_row_write:
  assumes "wf_board s" "board_get (board s) r = Some rr"
  shows "cell (row_write s rr c x) c' r' = (if c' = c \<and> r' = r then Some x else cell s c' r')"
proof (cases "board_get (board s) r'")
  case None
  then show ?thesis using assms(2) by (auto simp: cell_def getRow_def)
next
  case (Some rr')
  show ?thesis
  proof (cases "r' = r")
    case True
    then show ?thesis using assms(2) by (simp add: cell_def getRow_def rows_row_write arr_set_def)
  next
    case False
    then have "rr' \<noteq> rr" using wf_row_inj[OF assms(1) Some] assms(2) by blast
    then show ?thesis using Some False by (simp add: cell_def getRow_def rows_row_write)
  qed
qed


lemma placeShip_loop_ok:
  assumes "wf_board s" "\<forall>z \<in> set zs. in_grid (col_at p (int (snd z))) (row_at p (int (snd z)))"
  shows "\<exists>s'. placeShip_loop s p zs = Inr s' \<and> wf_board s' \<and> board s' = board s \<and>
           spaces s' = spaces s \<and> fresh s' = fresh s \<and>
           (\<forall>c r. (\<forall>z \<in> set zs. (col_at p (int (snd z)), row_at p (int (snd z))) \<noteq> (c, r)) \<longrightarrow>
              cell s' c r = cell s c r) \<and>
           (distinct (map snd zs) \<longrightarrow>
              (\<forall>z \<in> set zs. cell s' (col_at p (int (snd z))) (row_at p (int (snd z))) = Some (fst z)))"
  using assms
proof (induction zs arbitrary: s)
  case Nil
  then show ?case by simp
next
  case (Cons z zs)
  obtain x i where z: "z = (x, i)" by (cases z)
  let ?c = "col_at p (int i)" and ?r = "row_at p (int i)"
  have g: "in_grid ?c ?r" using Cons.prems(2) z by simp
  then obtain rr where rr: "board_get (board s) ?r = Some rr"
    using wf_row_ex[OF Cons.prems(1), of ?r] by (auto simp: in_grid_def)
  let ?s1 = "row_write s rr ?c x"
  have wf1: "wf_board ?s1"
    using wf_row_write[OF Cons.prems(1) rr] g by (simp add: in_grid_def)
  have c1: "\<And>c' r'. cell ?s1 c' r' = (if c' = ?c \<and> r' = ?r then Some x else cell s c' r')"
    by (rule cell_row_write[OF Cons.prems(1) rr])
  from Cons.IH[OF wf1] Cons.prems(2)
  obtain s' where s': "placeShip_loop ?s1 p zs = Inr s'" "wf_board s'" "board s' = board ?s1"
    "spaces s' = spaces ?s1" "fresh s' = fresh ?s1"
    "\<forall>c r. (\<forall>z \<in> set zs. (col_at p (int (snd z)), row_at p (int (snd z))) \<noteq> (c, r)) \<longrightarrow>
              cell s' c r = cell ?s1 c r"
    "distinct (map snd zs) \<longrightarrow>
              (\<forall>z \<in> set zs. cell s' (col_at p (int (snd z))) (row_at p (int (snd z))) = Some (fst z))"
    by auto
  have run: "placeShip_loop s p (z # zs) = Inr s'"
    using s'(1) rr z by simp
  have inj: "\<And>j. (col_at p (int j), row_at p (int j)) = (?c, ?r) \<Longrightarrow> j = i"
    by (auto simp: col_at_def row_at_def split: if_splits)
  have frame: "\<forall>c r. (\<forall>z \<in> set (z # zs). (col_at p (int (snd z)), row_at p (int (snd z))) \<noteq> (c, r)) \<longrightarrow>
              cell s' c r = cell s c r"
    using s'(6) c1 z by auto
  have written: "distinct (map snd (z # zs)) \<longrightarrow>
              (\<forall>w \<in> set (z # zs). cell s' (col_at p (int (snd w))) (row_at p (int (snd w))) = Some (fst w))"
  proof
    assume d: "distinct (map snd (z # zs))"
    then have "\<forall>w \<in> set zs. snd w \<noteq> i" using z by auto
    then have "\<forall>w \<in> set zs. (col_at p (int (snd w)), row_at p (int (snd w))) \<noteq> (?c, ?r)"
      using inj by blast
    then have "cell s' ?c ?r = cell ?s1 ?c ?r" using s'(6) by blast
    then have "cell s' ?c ?r = Some x" using c1 by simp
    moreover have "\<forall>w \<in> set zs. cell s' (col_at p (int (snd w))) (row_at p (int (snd w))) = Some (fst w)"
      using s'(7) d by simp
    ultimately show "\<forall>w \<in> set (z # zs). cell s' (col_at p (int (snd w))) (row_at p (int (snd w))) = Some (fst w)"
      using z by simp
  qed
  show ?case using run s'(2,3,4,5) frame written by simp
qed


lemma placeShip_ok:
  assumes "wf_board s"
    "\<forall>i < length (hits sh). in_grid (col_at p (int i)) (row_at p (int i))"
  shows "\<exists>s'. placeShip s p sh = Inr s' \<and> wf_board s' \<and> board s' = board s \<and>
           spaces s' = spaces s \<and> fresh s' = fresh s \<and>
           (\<forall>i < length (hits sh). cell s' (col_at p (int i)) (row_at p (int i)) = Some (hits sh ! i)) \<and>
           (\<forall>c r. (c, r) \<notin> set (footprint p (length (hits sh))) \<longrightarrow> cell s' c r = cell s c r)"
proof -
  let ?n = "length (hits sh)"
  let ?zs = "zip (hits sh) [0..<?n]"
  have mem: "\<And>z. z \<in> set ?zs \<Longrightarrow> snd z < ?n \<and> fst z = hits sh ! snd z"
    by (auto simp: set_zip)
  have g: "\<forall>z \<in> set ?zs. in_grid (col_at p (int (snd z))) (row_at p (int (snd z)))"
    using assms(2) mem by blast
  have d: "distinct (map snd ?zs)" by simp
  from placeShip_loop_ok[OF assms(1) g] d
  obtain s' where s': "placeShip_loop s p ?zs = Inr s'" "wf_board s'" "board s' = board s"
    "spaces s' = spaces s" "fresh s' = fresh s"
    "\<forall>c r. (\<forall>z \<in> set ?zs. (col_at p (int (snd z)), row_at p (int (snd z))) \<noteq> (c, r)) \<longrightarrow>
              cell s' c r = cell s c r"
    "\<forall>z \<in> set ?zs. cell s' (col_at p (int (snd z))) (row_at p (int (snd z))) = Some (fst z)"
    by blast
  have w: "\<forall>i < ?n. cell s' (col_at p (int i)) (row_at p (int i)) = Some (hits sh ! i)"
  proof (intro allI impI)
    fix i assume i: "i < ?n"
    then have "(hits sh ! i, i) \<in> set ?zs" by (auto simp: set_zip)
    then show "cell s' (col_at p (int i)) (row_at p (int i)) = Some (hits sh ! i)"
      using s'(7) by fastforce
  qed
  have f: "\<forall>c r. (c, r) \<notin> set (footprint p ?n) \<longrightarrow> cell s' c r = cell s c r"
  proof (intro allI impI)
    fix c r assume n: "(c, r) \<notin> set (footprint p ?n)"
    have "\<forall>z \<in> set ?zs. (col_at p (int (snd z)), row_at p (int (snd z))) \<noteq> (c, r)"
    proof
      fix z assume "z \<in> set ?zs"
      then have "snd z < ?n" using mem by blast
      then have "(col_at p (int (snd z)), row_at p (int (snd z))) \<in> set (footprint p ?n)"
        by (simp add: footprint_def)
      then show "(col_at p (int (snd z)), row_at p (int (snd z))) \<noteq> (c, r)" using n by metis
    qed
    then show "cell s' c r = cell s c r" using s'(6) by blast
  qed
  show ?thesis using s'(1,2,3,4,5) w f by (simp add: placeShip_def)
qed

lemma blocked_in_grid:
  assumes "wf_board s" "blocked s r c = Inr b"
  shows "in_grid c r"
proof (rule ccontr)
  assume "\<not> in_grid c r"
  then have "cell s c r = None" using wf_cell_None[OF assms(1)] by blast
  then have "strict_parent s r c = Inl TypeError"
    by (auto simp: strict_parent_def cell_def split: option.splits)
  then show False using assms(2) by (simp add: blocked_def)
qed

lemma canPlace_loop_True:
  assumes "wf_board s" "canPlace_loop s p is = Inr True"
  shows "\<forall>i \<in> set is. in_grid (col_at p (int i)) (row_at p (int i)) \<and>
           \<not> touched s (col_at p (int i)) (row_at p (int i))"
  using assms(2)
proof (induction "is")
  case Nil
  then show ?case by simp
next
  case (Cons i "is")
  from Cons.prems have b: "blocked s (row_at p (int i)) (col_at p (int i)) = Inr False"
    and rest: "canPlace_loop s p is = Inr True"
    by (auto split: sum.splits bool.splits)
  have g: "in_grid (col_at p (int i)) (row_at p (int i))"
    using blocked_in_grid[OF assms(1) b] .
  have "\<not> touched s (col_at p (int i)) (row_at p (int i))"
    using blocked_eq[OF assms(1) g] b by simp
  then show ?case using g Cons.IH[OF rest] by simp
qed

lemma canPlace_True:
  assumes "wf_board s" "canPlace s p sh = Inr True"
  shows "\<forall>i < length (hits sh). in_grid (col_at p (int i)) (row_at p (int i)) \<and>
           \<not> touched s (col_at p (int i)) (row_at p (int i))"
proof -
  have "canPlace_loop s p [0..<length (hits sh)] = Inr True"
    using assms(2) by (auto simp: canPlace_def Let_def split: if_splits)
  from canPlace_loop_True[OF assms(1) this] show ?thesis by simp
qed

lemma near_cases: "near a b \<Longrightarrow> a = b \<or> b \<in> set (neighbours a)"
proof -
  assume n: "near a b"
  obtain c r where a: "a = (c, r)" by (cases a)
  obtain c' r' where b: "b = (c', r')" by (cases b)
  from n a b have "c' = c - 1 \<or> c' = c \<or> c' = c + 1" "r' = r - 1 \<or> r' = r \<or> r' = r + 1"
    by (auto simp: near_def)
  then show ?thesis unfolding a b neighbours_def by auto
qed

lemma footprint_mem: "cr \<in> set (footprint p n) \<longleftrightarrow> (\<exists>i < n. cr = (col_at p (int i), row_at p (int i)))"
  by (auto simp: footprint_def)

lemma place_then_blocked:
  assumes "wf_board s" "segments_owned s sh" "canPlace s p sh = Inr True"
    "placeShip s p sh = Inr s'" "0 \<le> col q" "0 \<le> row q"
    "a \<in> set (footprint q (length (hits sh')))" "b \<in> set (footprint p (length (hits sh)))"
    "near a b"
  shows "canPlace s' q sh' = Inr False"
proof -
  have g: "\<forall>i < length (hits sh). in_grid (col_at p (int i)) (row_at p (int i))"
    using canPlace_True[OF assms(1,3)] by blast
  from placeShip_ok[OF assms(1) g] assms(4)
  have wf': "wf_board s'" and sp: "spaces s' = spaces s"
    and w: "\<forall>i < length (hits sh). cell s' (col_at p (int i)) (row_at p (int i)) = Some (hits sh ! i)"
    by auto
  from assms(8) obtain j where j: "j < length (hits sh)" "b = (col_at p (int j), row_at p (int j))"
    using footprint_mem by blast
  have "cell s' (fst b) (snd b) = Some (hits sh ! j)" using w j by simp
  moreover have "parent (spaces s (hits sh ! j)) = Some (ship_ref sh)"
    using assms(2) j(1) by (simp add: segments_owned_def)
  ultimately have ob: "occupant s' (fst b) (snd b) \<noteq> None"
    by (simp add: occupant_def sp)
  have gb: "in_grid (fst b) (snd b)" using g j by simp
  have "\<not> canPlace_spec s' q (length (hits sh'))"
  proof
    assume cs: "canPlace_spec s' q (length (hits sh'))"
    from near_cases[OF assms(9)] show False
    proof
      assume "a = b"
      then show False using cs assms(7) ob unfolding canPlace_spec_def by metis
    next
      assume "b \<in> set (neighbours a)"
      then show False using cs assms(7) ob gb unfolding canPlace_spec_def by metis
    qed
  qed
  then show ?thesis using canPlace_eq[OF wf' assms(5,6), of sh'] by simp
qed

section \<open>Properties of receiveAttack and checkHit\<close>

lemma receiveAttack_eq:
  assumes "cell s c r = Some x"
  shows "receiveAttack s c r = Inr (parent (spaces s x), hit x s)"
  using assms
  by (auto simp: receiveAttack_def cell_def getRow_def hit_def Let_def split: option.splits)

lemma hit_fields [simp]:
  "board (hit x s) = board s" "rows (hit x s) = rows s" "fresh (hit x s) = fresh s"
  "parent (spaces (hit x s) y) = parent (spaces s y)"
  "isHit (spaces (hit x s) y) = (y = x \<or> isHit (spaces s y))"
  by (auto simp: hit_def)

lemma hit_idem: "hit x (hit x s) = hit x s"
  by (simp add: hit_def)

lemma cell_hit [simp]: "cell (hit x s) c r = cell s c r"
  by (simp add: cell_def getRow_def)

lemma occupant_hit [simp]: "occupant (hit x s) c r = occupant s c r"
  by (simp add: occupant_def split: option.splits)

lemma wf_hit [simp]: "wf_board (hit x s) = wf_board s"
  by (simp add: wf_board_def)

lemma checkHit_eq: "cell s c r = Some x \<Longrightarrow> checkHit s c r = Inr (isHit (spaces s x))"
  by (auto simp: checkHit_def cell_def getRow_def split: option.splits)

lemma receiveAttack_twice:
  assumes "wf_board s" "in_grid c r"
  shows "\<exists>s1. receiveAttack s c r = Inr (occupant s c r, s1) \<and> checkHit s1 c r = Inr True \<and>
           receiveAttack s1 c r = Inr (occupant s c r, s1) \<and> occupant s1 c r = occupant s c r"
proof -
  obtain x where x: "cell s c r = Some x" using wf_cell_Some[OF assms] by blast
  have 1: "receiveAttack s c r = Inr (occupant s c r, hit x s)"
    using receiveAttack_eq[OF x] x by (simp add: occupant_def)
  have x': "cell (hit x s) c r = Some x" using x by simp
  have 2: "checkHit (hit x s) c r = Inr True" using checkHit_eq[OF x'] by simp
  have 3: "receiveAttack (hit x s) c r = Inr (occupant s c r, hit x s)"
    using receiveAttack_eq[OF x'] x by (simp add: occupant_def hit_idem)
  show ?thesis using 1 2 3 by simp
qed

lemma placeShip_checkHit:
  assumes "wf_board s" "\<forall>i < length (hits sh). in_grid (col_at p (int i)) (row_at p (int i))"
    "placeShip s p sh = Inr s'" "i < length (hits sh)"
  shows "checkHit s' (col_at p (int i)) (row_at p (int i)) = Inr (isHit (spaces s (hits sh ! i)))"
proof -
  from placeShip_ok[OF assms(1,2)] assms(3)
  have sp: "spaces s' = spaces s"
    and w: "\<forall>i < length (hits sh). cell s' (col_at p (int i)) (row_at p (int i)) = Some (hits sh ! i)"
    by auto
  show ?thesis using checkHit_eq[of s' _ _ "hits sh ! i"] w assms(4) sp by simp
qed

section \<open>Properties of new ships\<close>

lemma new_segments_hits: "fst (new_segments r n s) = [fresh s ..< fresh s + n]"
proof (induction n arbitrary: s)
  case 0
  then show ?case by simp
next
  case (Suc n)
  have u: "[fresh s ..< fresh s + Suc n] = fresh s # [fresh s + 1 ..< fresh s + 1 + n]"
    by (simp add: upt_rec)
  show ?case unfolding u by (simp add: case_prod_beta Suc.IH new_Space_def)
qed

lemma new_segments_frame:
  "board (snd (new_segments r n s)) = board s \<and> rows (snd (new_segments r n s)) = rows s \<and>
   fresh (snd (new_segments r n s)) = fresh s + n"
  by (induction n arbitrary: s) (simp_all add: case_prod_beta new_Space_def)

lemma new_segments_spaces:
  "spaces (snd (new_segments r n s)) a =
     (if fresh s \<le> a \<and> a < fresh s + n then \<lparr>parent = Some r, isHit = False\<rparr> else spaces s a)"
  by (induction n arbitrary: s) (auto simp: case_prod_beta new_Space_def)

lemma new_Ship_fields:
  "ship_ref (fst (new_Ship r n s)) = r"
  "hits (fst (new_Ship r n s)) = [fresh s ..< fresh s + n]"
  "board (snd (new_Ship r n s)) = board s"
  "rows (snd (new_Ship r n s)) = rows s"
  "fresh (snd (new_Ship r n s)) = fresh s + n"
  "spaces (snd (new_Ship r n s)) a =
     (if fresh s \<le> a \<and> a < fresh s + n then \<lparr>parent = Some r, isHit = False\<rparr> else spaces s a)"
  using new_segments_hits[of r n s] new_segments_frame[of r n s] new_segments_spaces[of r n s a]
  by (simp_all add: new_Ship_def case_prod_beta)

lemma wf_board_cong: "board s' = board s \<Longrightarrow> rows s' = rows s \<Longrightarrow> wf_board s' = wf_board s"
  by (simp add: wf_board_def)

lemma wf_new_Ship: "wf_board (snd (new_Ship r n s)) = wf_board s"
  by (rule wf_board_cong) (simp_all add: new_Ship_fields)

lemma new_Ship_owned: "segments_owned (snd (new_Ship r n s)) (fst (new_Ship r n s))"
  by (simp add: new_Ship_fields segments_owned_def)

lemma new_Ship_unhit: "unhit (snd (new_Ship r n s)) (fst (new_Ship r n s))"
  by (simp add: new_Ship_fields unhit_def)

lemma wf_harbour: "wf_board harbour"
  by (simp add: harbour_def wf_new_Ship wf_start)

lemma patrol_fields: "ship_ref patrol = 1" "hits patrol = [225]"
  by (simp_all add: patrol_def new_Ship_fields start_def constructor_def)

lemma harbour_fields:
  "board harbour = board start" "rows harbour = rows start"
  "spaces harbour a = (if a = 225 then \<lparr>parent = Some 1, isHit = False\<rparr> else \<lparr>parent = None, isHit = False\<rparr>)"
  "fresh harbour = 226"
  by (auto simp: harbour_def new_Ship_fields start_def constructor_def empty_store_def)

lemmas harbour_defs = patrol_fields harbour_fields getRow_def cell_def row_at_def col_at_def occupied_def occupant_def
  start_def constructor_def new_row_def board_get_def

section \<open>Properties of numbers\<close>

lemma pow2_powr: "pow2 e = (2::real) powr (of_int e)"
proof (cases "0 \<le> e")
  case True
  then have "(2::real) powr (of_int e) = 2 ^ nat e"
    using powr_realpow[of 2 "nat e"] by simp
  then show ?thesis using True by (simp add: pow2_def)
next
  case False
  have "(2::real) powr (of_int e) = 1 / 2 powr (- of_int e)"
    using powr_minus_divide[of "2::real" "- of_int e"] by simp
  also have "(2::real) powr (- of_int e) = 2 ^ nat (- e)"
    using powr_realpow[of 2 "nat (- e)"] False by simp
  finally show ?thesis using False by (simp add: pow2_def)
qed

lemma pow2_pos: "0 < pow2 e" by (simp add: pow2_powr)

lemma pow2_add: "pow2 (a + b) = pow2 a * pow2 b"
  by (simp add: pow2_powr powr_add)

lemma pow2_less: "pow2 a < pow2 b \<longleftrightarrow> a < b"
  by (simp add: pow2_powr)

lemma pow2_0: "pow2 0 = 1" by (simp add: pow2_def)

lemma pow2_1: "pow2 1 = 2" by (simp add: pow2_def)

lemma pow2_half: "pow2 (e - 1) = pow2 e / 2"
  using pow2_add[of "e - 1" 1] by (simp add: pow2_1)

lemma pow2_double: "pow2 (e + 1) = pow2 e * 2"
  using pow2_add[of e 1] by (simp add: pow2_1)

lemma exponent_search_correct:
  "pow2 e \<le> p \<Longrightarrow> p < pow2 (e + 1) \<Longrightarrow> \<bar>e\<bar> < int n \<Longrightarrow> exponent_search n p = e"
proof (induction n arbitrary: p e)
  case 0
  then show ?case by simp
next
  case (Suc n)
  show ?case
  proof (cases "2 \<le> p")
    case True
    then have "pow2 1 < pow2 (e + 1)" using Suc.prems(2) by (simp add: pow2_1)
    then have e: "1 \<le> e" using pow2_less[of 1 "e + 1"] by simp
    have a: "pow2 (e - 1) \<le> p / 2"
      using Suc.prems(1) by (simp add: pow2_half)
    have b: "p / 2 < pow2 (e - 1 + 1)"
      using Suc.prems(2) by (simp add: pow2_double)
    have c: "\<bar>e - 1\<bar> < int n" using e Suc.prems(3) by simp
    show ?thesis using True Suc.IH[OF a b c] by simp
  next
    case False
    show ?thesis
    proof (cases "p < 1")
      case True
      then have "pow2 e < pow2 0" using Suc.prems(1) by (simp add: pow2_0)
      then have e: "e \<le> - 1" using pow2_less[of e 0] by simp
      have a: "pow2 (e + 1) \<le> p * 2"
        using Suc.prems(1) by (simp add: pow2_double)
      have b: "p * 2 < pow2 (e + 1 + 1)"
        using Suc.prems(2) pow2_double[of "e + 1"] by simp
      have c: "\<bar>e + 1\<bar> < int n" using e Suc.prems(3) by simp
      show ?thesis using True False Suc.IH[OF a b c] by simp
    next
      case F2: False
      have "pow2 e < pow2 1" using Suc.prems(1) False by (simp add: pow2_1)
      then have "e < 1" using pow2_less[of e 1] by simp
      moreover have "pow2 0 < pow2 (e + 1)" using Suc.prems(2) F2 by (simp add: pow2_0)
      then have "0 < e + 1" using pow2_less[of 0 "e + 1"] by simp
      ultimately have "e = 0" by simp
      then show ?thesis using False F2 by simp
    qed
  qed
qed

lemma exponent_search_le:
  "p < pow2 (int k + 1) \<Longrightarrow> exponent_search n p \<le> int k"
proof (induction n arbitrary: p k)
  case 0
  then show ?case by simp
next
  case (Suc n)
  show ?case
  proof (cases "2 \<le> p")
    case True
    then have "pow2 1 < pow2 (int k + 1)" using Suc.prems by (simp add: pow2_1)
    then have "0 < k" using pow2_less[of 1 "int k + 1"] by simp
    then obtain k' where k': "k = Suc k'" by (cases k) auto
    have "pow2 (int k + 1) = pow2 (int k' + 1) * 2"
      using pow2_double[of "int k' + 1"] k' by (simp add: add.commute)
    then have "p / 2 < pow2 (int k' + 1)"
      using Suc.prems by simp
    from Suc.IH[OF this] show ?thesis using True k' by simp
  next
    case False
    show ?thesis
    proof (cases "p < 1")
      case True
      have "p * 2 < pow2 (int 0 + 1)" using True by (simp add: pow2_1)
      from Suc.IH[OF this] show ?thesis using True False by simp
    next
      case F2: False
      then show ?thesis using False by simp
    qed
  qed
qed

lemma round_half_even_bounds: "\<lfloor>q\<rfloor> \<le> round_half_even q \<and> round_half_even q \<le> \<lfloor>q\<rfloor> + 1"
  by (simp add: round_half_even_def Let_def)

lemma round_half_even_down: "q - of_int \<lfloor>q\<rfloor> < 1 / 2 \<Longrightarrow> round_half_even q = \<lfloor>q\<rfloor>"
  by (simp add: round_half_even_def Let_def)

lemma fl_nonneg: "0 \<le> p \<Longrightarrow> 0 \<le> fl p"
proof -
  assume p: "0 \<le> p"
  let ?u = "pow2 (binade p - 52)"
  have "0 \<le> p / ?u" using p pow2_pos[of "binade p - 52"] by simp
  then have "0 \<le> \<lfloor>p / ?u\<rfloor>" by simp
  then have "0 \<le> round_half_even (p / ?u)" using round_half_even_bounds[of "p / ?u"] by linarith
  then show ?thesis
    using pow2_pos[of "binade p - 52"] by (simp add: fl_def Let_def)
qed

lemma fl_zero [simp]: "fl 0 = 0"
  by (simp add: fl_def round_half_even_def)


lemma binary64_below_one:
  assumes "binary64 x" "0 \<le> x" "x < 1"
  shows "x \<le> 1 - 1 / 2 ^ 53"
proof -
  from assms(1) obtain m e where me: "x = of_int m * pow2 e" "\<bar>m\<bar> < 2 ^ 53"
    unfolding binary64_def by blast
  show ?thesis
  proof (cases "0 \<le> e")
    case True
    define k where "k = m * 2 ^ nat e"
    have xk: "x = real_of_int k" using me(1) True by (simp add: pow2_def k_def)
    have "k < 1" using assms(3) unfolding xk by linarith
    moreover have "0 \<le> k" using assms(2) unfolding xk by linarith
    ultimately have "k = 0" by simp
    then have "x = 0" using xk by simp
    then show ?thesis by simp
  next
    case False
    define t where "t = nat (- e)"
    have x: "x = of_int m / 2 ^ t" using me(1) False by (simp add: pow2_def t_def)
    have m1: "m < 2 ^ t"
    proof -
      have "of_int m < (2::real) ^ t" using assms(3) x by (simp add: divide_less_eq)
      then have "real_of_int m < real_of_int (2 ^ t)" by simp
      then show ?thesis by linarith
    qed
    define c :: int where "c = 2 ^ 53"
    define d :: int where "d = 2 ^ t"
    have c0: "0 < c" and d0: "0 < d" by (simp_all add: c_def d_def)
    have m1': "m \<le> d - 1" using m1 by (simp add: d_def)
    have m2: "m \<le> c - 1" using me(2) by (simp add: c_def)
    have key: "m * c \<le> d * (c - 1)"
    proof (cases "t \<le> 53")
      case True
      then have "(2::int) ^ t \<le> 2 ^ 53" by (rule power_increasing) simp
      then have dc: "d \<le> c" by (simp only: c_def d_def)
      have "m * c \<le> (d - 1) * c" using m1' c0 by (simp add: mult_right_mono)
      also have "\<dots> = d * c - c" by (simp add: algebra_simps)
      also have "\<dots> \<le> d * c - d" using dc by simp
      also have "\<dots> = d * (c - 1)" by (simp add: algebra_simps)
      finally show ?thesis .
    next
      case False
      then have "53 \<le> t" by simp
      then have "(2::int) ^ 53 \<le> 2 ^ t" by (rule power_increasing) simp
      then have cd: "c \<le> d" by (simp only: c_def d_def)
      have "m * c \<le> (c - 1) * c" using m2 c0 by (simp add: mult_right_mono)
      also have "\<dots> = c * (c - 1)" by (simp add: algebra_simps)
      also have "\<dots> \<le> d * (c - 1)" using cd c0 by (simp add: mult_right_mono)
      finally show ?thesis .
    qed
    have "real_of_int (m * c) \<le> real_of_int (d * (c - 1))"
      using key by (rule of_int_le_iff[THEN iffD2])
    then have r: "real_of_int m * real_of_int c \<le> real_of_int d * (real_of_int c - 1)" by simp
    have rc: "real_of_int c = 2 ^ 53" and rd: "real_of_int d = 2 ^ t"
      by (simp_all add: c_def d_def)
    have "real_of_int m / real_of_int d \<le> (real_of_int c - 1) / real_of_int c"
      using r c0 d0 by (simp add: field_simps)
    then have "real_of_int m / 2 ^ t \<le> (2 ^ 53 - 1) / 2 ^ 53"
      unfolding rc rd .
    then show ?thesis using x by (simp add: diff_divide_distrib)
  qed
qed


lemma binade_small:
  assumes "p < 8"
  shows "- 1022 \<le> binade p \<and> binade p \<le> 2"
proof -
  have "p < pow2 (int 2 + 1)" using assms by (simp add: pow2_def)
  from exponent_search_le[OF this, of 2100] show ?thesis by (simp add: binade_def)
qed

lemma binade_8_16:
  assumes "8 \<le> p" "p < 16"
  shows "binade p = 3"
proof -
  have "pow2 3 \<le> p" "p < pow2 (3 + 1)" using assms by (simp_all add: pow2_def)
  then have "exponent_search 2100 p = 3" by (rule exponent_search_correct) simp
  then show ?thesis by (simp add: binade_def)
qed

lemma fl_below_8:
  assumes "0 \<le> p" "p < 8"
  shows "fl p \<le> 8"
proof -
  define b where "b = binade p"
  have b: "- 1022 \<le> b" "b \<le> 2" using binade_small[OF assms(2)] by (simp_all add: b_def)
  define u where "u = pow2 (b - 52)"
  define N :: int where "N = 2 ^ nat (55 - b)"
  have u0: "0 < u" by (simp add: u_def pow2_pos)
  have "pow2 (55 - b) = real_of_int N" using b by (simp add: pow2_def N_def)
  moreover have "pow2 (55 - b) * pow2 (b - 52) = pow2 3"
    using pow2_add[of "55 - b" "b - 52"] by simp
  ultimately have Nu: "real_of_int N * u = 8" by (simp add: u_def pow2_def)
  have "p / u < real_of_int N"
    using assms(2) Nu u0 by (simp add: divide_less_eq)
  then have "\<lfloor>p / u\<rfloor> < N" by (simp add: floor_less_iff)
  then have "round_half_even (p / u) \<le> N"
    using round_half_even_bounds[of "p / u"] by linarith
  then have "real_of_int (round_half_even (p / u)) \<le> real_of_int N" by simp
  then have "real_of_int (round_half_even (p / u)) * u \<le> real_of_int N * u"
    using u0 by (simp add: mult_right_mono)
  then show ?thesis unfolding Nu by (simp add: fl_def Let_def u_def b_def)
qed

lemma fl_below_15:
  assumes "8 \<le> p" "p \<le> 15 - 15 / 2 ^ 53"
  shows "fl p \<le> 15 - 1 / 2 ^ 49"
proof -
  have p16: "p < 16" using assms(2) by simp
  have b: "binade p = 3" using binade_8_16[OF assms(1) p16] .
  define q where "q = p * 2 ^ 49"
  define M :: int where "M = 15 * 2 ^ 49 - 1"
  have fl: "fl p = real_of_int (round_half_even q) / 2 ^ 49"
    by (simp add: fl_def Let_def b pow2_def q_def)
  have qle: "q \<le> real_of_int M + 1 / 16"
    using assms(2) by (simp add: q_def M_def)
  then have "q < real_of_int (M + 1)" by simp
  then have f: "\<lfloor>q\<rfloor> \<le> M" using floor_less_iff[of q "M + 1"] by simp
  have "round_half_even q \<le> M"
  proof (cases "\<lfloor>q\<rfloor> = M")
    case True
    then have "q - real_of_int \<lfloor>q\<rfloor> < 1 / 2" using qle by simp
    then show ?thesis using round_half_even_down[of q] True by simp
  next
    case False
    then have "\<lfloor>q\<rfloor> + 1 \<le> M" using f by simp
    then show ?thesis using round_half_even_bounds[of q] by linarith
  qed
  then have "real_of_int (round_half_even q) \<le> real_of_int M" by simp
  then have "real_of_int (round_half_even q) / 2 ^ 49 \<le> real_of_int M / 2 ^ 49"
    by (simp add: divide_right_mono)
  then show ?thesis unfolding fl by (simp add: M_def)
qed

lemma floor_fl_mul15:
  assumes "binary64 x" "0 \<le> x" "x < 1"
  shows "0 \<le> \<lfloor>fl (x * 15)\<rfloor> \<and> \<lfloor>fl (x * 15)\<rfloor> < 15"
proof -
  have le: "x * 15 \<le> 15 - 15 / 2 ^ 53"
    using binary64_below_one[OF assms] by simp
  have nn: "0 \<le> x * 15" using assms(2) by simp
  have "fl (x * 15) < 15"
  proof (cases "x * 15 < 8")
    case True
    then show ?thesis using fl_below_8[OF nn True] by simp
  next
    case False
    then have "8 \<le> x * 15" by simp
    from fl_below_15[OF this le] show ?thesis by simp
  qed
  moreover have "0 \<le> fl (x * 15)" using fl_nonneg[OF nn] .
  ultimately show ?thesis by (simp add: floor_less_iff)
qed

lemma binary64_zero: "binary64 0"
  unfolding binary64_def by (rule exI[of _ 0], rule exI[of _ 0]) simp

text \<open>
  Rounding matters: for the binary64 value nearest to 0.6 the exact product is below 9
  and the rounded product is 9.
\<close>

lemma fl_example: "\<lfloor>fl (5404319552844595 / 9007199254740992 * 15)\<rfloor> = 9"
proof -
  define p :: real where "p = 5404319552844595 / 9007199254740992 * 15"
  have "8 \<le> p" "p < 16" by (simp_all add: p_def)
  then have b: "binade p = 3" by (rule binade_8_16)
  have q: "p / pow2 (3 - 52) = 81064793292668925 / 16" by (simp add: p_def pow2_def)
  have f: "\<lfloor>81064793292668925 / 16 :: real\<rfloor> = 5066549580791807" by simp
  have r: "round_half_even (81064793292668925 / 16) = 5066549580791808"
    by (simp add: round_half_even_def Let_def f)
  have "fl p = real_of_int (round_half_even (p / pow2 (3 - 52))) * pow2 (3 - 52)"
    by (simp only: fl_def Let_def b)
  then have "fl p = 9" unfolding q r by (simp add: pow2_def)
  then have "\<lfloor>fl p\<rfloor> = 9" by simp
  then show ?thesis unfolding p_def .
qed

lemma exact_example: "\<lfloor>(5404319552844595 / 9007199254740992 * 15 :: real)\<rfloor> = 8"
  by simp

section \<open>Properties of findValidPosition\<close>

lemma sample_range:
  assumes "unit_interval rnd"
  shows "0 \<le> col (sample rnd k) \<and> col (sample rnd k) < 15 \<and>
         0 \<le> row (sample rnd k) \<and> row (sample rnd k) < 15"
proof -
  have "\<And>i. 0 \<le> \<lfloor>fl (rnd i * 15)\<rfloor> \<and> \<lfloor>fl (rnd i * 15)\<rfloor> < 15"
    using assms floor_fl_mul15 unfolding unit_interval_def by blast
  then show ?thesis unfolding sample_def by simp
qed

lemma unit_interval_zero: "unit_interval (\<lambda>_. 0)"
  by (simp add: unit_interval_def binary64_zero)

lemma binary64_six_tenths: "binary64 six_tenths"
  unfolding binary64_def
  by (rule exI[of _ 5404319552844595], rule exI[of _ "- 53"]) (simp add: six_tenths_def pow2_def)

lemma unit_interval_six_tenths: "unit_interval (\<lambda>_. six_tenths)"
  using binary64_six_tenths by (simp add: unit_interval_def) (simp add: six_tenths_def)

lemma sample_six_tenths: "sample (\<lambda>_. six_tenths) k = \<lparr>col = 9, row = 9, horizontal = False\<rparr>"
proof -
  have "\<lfloor>fl (six_tenths * 15)\<rfloor> = 9" unfolding six_tenths_def by (rule fl_example)
  moreover have "\<not> six_tenths < 0.5" by (simp add: six_tenths_def)
  ultimately show ?thesis by (simp add: sample_def)
qed

lemma findValidPosition_loop_cases:
  assumes "\<forall>j < n. \<exists>b. canPlace s (attempt rnd k j) sh = Inr b"
  shows "(\<exists>j < n. findValidPosition_loop s sh rnd k n = Inr (Some (attempt rnd k j), k + 3 * j + 3) \<and>
            canPlace s (attempt rnd k j) sh = Inr True \<and>
            (\<forall>i < j. canPlace s (attempt rnd k i) sh = Inr False)) \<or>
         (findValidPosition_loop s sh rnd k n = Inr (None, k + 3 * n) \<and>
            (\<forall>i < n. canPlace s (attempt rnd k i) sh = Inr False))"
  using assms
proof (induction n arbitrary: k)
  case 0
  then show ?case by simp
next
  case (Suc n)
  have sh: "\<And>j. attempt rnd (k + 3) j = attempt rnd k (Suc j)"
    by (simp add: attempt_def add.assoc)
  have a0: "attempt rnd k 0 = sample rnd k" by (simp add: attempt_def)
  have "\<exists>b. canPlace s (attempt rnd k 0) sh = Inr b" using Suc.prems by simp
  then obtain b where b: "canPlace s (sample rnd k) sh = Inr b" unfolding a0 by blast
  show ?case
  proof (cases b)
    case True
    have r: "findValidPosition_loop s sh rnd k (Suc n) = Inr (Some (attempt rnd k 0), k + 3 * 0 + 3)"
      using b True by (simp add: a0)
    have "0 < Suc n \<and>
        findValidPosition_loop s sh rnd k (Suc n) = Inr (Some (attempt rnd k 0), k + 3 * 0 + 3) \<and>
        canPlace s (attempt rnd k 0) sh = Inr True \<and>
        (\<forall>i < 0. canPlace s (attempt rnd k i) sh = Inr False)"
      using r b True by (simp add: a0)
    then show ?thesis by (intro disjI1 exI[of _ 0])
  next
    case False
    have step: "findValidPosition_loop s sh rnd k (Suc n) = findValidPosition_loop s sh rnd (k + 3) n"
      using b False by simp
    have first: "canPlace s (attempt rnd k 0) sh = Inr False"
      using b False by (simp add: a0)
    have shift: "\<And>m. (\<forall>i < m. canPlace s (attempt rnd (k + 3) i) sh = Inr False) \<Longrightarrow>
        (\<forall>i < Suc m. canPlace s (attempt rnd k i) sh = Inr False)"
    proof (intro allI impI)
      fix m i
      assume h: "\<forall>i < m. canPlace s (attempt rnd (k + 3) i) sh = Inr False" and i: "i < Suc m"
      show "canPlace s (attempt rnd k i) sh = Inr False"
      proof (cases i)
        case 0
        then show ?thesis using first by simp
      next
        case (Suc i')
        then have "i' < m" using i by simp
        then have "canPlace s (attempt rnd (k + 3) i') sh = Inr False" using h by blast
        then show ?thesis unfolding sh Suc .
      qed
    qed
    have pre: "\<forall>j < n. \<exists>b. canPlace s (attempt rnd (k + 3) j) sh = Inr b"
    proof (intro allI impI)
      fix j assume "j < n"
      then have "Suc j < Suc n" by simp
      then have "\<exists>b. canPlace s (attempt rnd k (Suc j)) sh = Inr b" using Suc.prems by blast
      then show "\<exists>b. canPlace s (attempt rnd (k + 3) j) sh = Inr b" unfolding sh .
    qed
    from Suc.IH[OF pre] show ?thesis
    proof
      assume "\<exists>j<n. findValidPosition_loop s sh rnd (k + 3) n =
                 Inr (Some (attempt rnd (k + 3) j), k + 3 + 3 * j + 3) \<and>
                 canPlace s (attempt rnd (k + 3) j) sh = Inr True \<and>
                 (\<forall>i<j. canPlace s (attempt rnd (k + 3) i) sh = Inr False)"
      then obtain j where j: "j < n"
        "findValidPosition_loop s sh rnd (k + 3) n = Inr (Some (attempt rnd (k + 3) j), k + 3 + 3 * j + 3)"
        "canPlace s (attempt rnd (k + 3) j) sh = Inr True"
        "\<forall>i<j. canPlace s (attempt rnd (k + 3) i) sh = Inr False"
        by blast
      have ar: "k + 3 + 3 * j + 3 = k + 3 * Suc j + 3" by simp
      have "Suc j < Suc n \<and>
        findValidPosition_loop s sh rnd k (Suc n) = Inr (Some (attempt rnd k (Suc j)), k + 3 * Suc j + 3) \<and>
        canPlace s (attempt rnd k (Suc j)) sh = Inr True \<and>
        (\<forall>i < Suc j. canPlace s (attempt rnd k i) sh = Inr False)"
        using j(1) j(2)[unfolded sh ar] j(3)[unfolded sh] shift[OF j(4)] unfolding step by blast
      then show ?thesis by (intro disjI1 exI[of _ "Suc j"])
    next
      assume n: "findValidPosition_loop s sh rnd (k + 3) n = Inr (None, k + 3 + 3 * n) \<and>
          (\<forall>i<n. canPlace s (attempt rnd (k + 3) i) sh = Inr False)"
      have ar: "k + 3 + 3 * n = k + 3 * Suc n" by simp
      have "findValidPosition_loop s sh rnd k (Suc n) = Inr (None, k + 3 * Suc n)"
        using n unfolding step ar by blast
      moreover have "\<forall>i < Suc n. canPlace s (attempt rnd k i) sh = Inr False"
        using shift n by blast
      ultimately show ?thesis by (intro disjI2 conjI)
    qed
  qed
qed

lemma canPlace_sample_total:
  assumes "wf_board s" "unit_interval rnd"
  shows "\<exists>b. canPlace s (sample rnd k) sh = Inr b"
  using canPlace_eq[OF assms(1), of "sample rnd k" sh] sample_range[OF assms(2), of k] by simp

lemma findValidPosition_cases:
  assumes "wf_board s" "unit_interval rnd"
  shows "(\<exists>j < 100000.
            findValidPosition s sh rnd k = Inr (Some (attempt rnd k j), k + 3 * j + 3) \<and>
            canPlace s (attempt rnd k j) sh = Inr True \<and>
            (\<forall>i < j. canPlace s (attempt rnd k i) sh = Inr False)) \<or>
         (findValidPosition s sh rnd k = Inr (None, k + 300000) \<and>
            (\<forall>i < 100000. canPlace s (attempt rnd k i) sh = Inr False))"
proof -
  have "\<forall>j < 100000. \<exists>b. canPlace s (attempt rnd k j) sh = Inr b"
    using canPlace_sample_total[OF assms] by (simp add: attempt_def)
  from findValidPosition_loop_cases[OF this]
  have c: "(\<exists>j < 100000.
            findValidPosition_loop s sh rnd k 100000 = Inr (Some (attempt rnd k j), k + 3 * j + 3) \<and>
            canPlace s (attempt rnd k j) sh = Inr True \<and>
            (\<forall>i < j. canPlace s (attempt rnd k i) sh = Inr False)) \<or>
         (findValidPosition_loop s sh rnd k 100000 = Inr (None, k + 3 * 100000) \<and>
            (\<forall>i < 100000. canPlace s (attempt rnd k i) sh = Inr False))" .
  have e: "k + 3 * 100000 = k + 300000" by simp
  show ?thesis
    unfolding findValidPosition_def maxIterations_def using c unfolding e .
qed

section \<open>Properties of autoPlaceShips\<close>

lemma canPlace_too_long:
  assumes "15 < length (hits sh)" "0 \<le> col p" "0 \<le> row p"
  shows "canPlace s p sh = Inr False"
  using assms by (auto simp: canPlace_def Let_def col_at_def row_at_def)

lemma findValidPosition_loop_first:
  assumes "canPlace s (sample rnd k) sh = Inr True" "0 < n"
  shows "findValidPosition_loop s sh rnd k n = Inr (Some (sample rnd k), k + 3)"
  using assms by (cases n) simp_all

lemma findValidPosition_loop_none:
  assumes "\<forall>j < n. canPlace s (attempt rnd k j) sh = Inr False"
  shows "findValidPosition_loop s sh rnd k n = Inr (None, k + 3 * n)"
proof -
  have "\<forall>j < n. \<exists>b. canPlace s (attempt rnd k j) sh = Inr b" using assms by blast
  from findValidPosition_loop_cases[OF this] show ?thesis using assms by auto
qed

lemma findValidPosition_loop_Some:
  "findValidPosition_loop s sh rnd k n = Inr (Some p, k') \<Longrightarrow> canPlace s p sh = Inr True"
proof (induction n arbitrary: k)
  case 0
  then show ?case by simp
next
  case (Suc n)
  show ?case
  proof (cases "canPlace s (sample rnd k) sh")
    case (Inl e)
    then show ?thesis using Suc.prems by simp
  next
    case (Inr b)
    show ?thesis
    proof (cases b)
      case True
      then show ?thesis using Suc.prems Inr by simp
    next
      case False
      then have "findValidPosition_loop s sh rnd (k + 3) n = Inr (Some p, k')"
        using Suc.prems Inr by simp
      then show ?thesis by (rule Suc.IH)
    qed
  qed
qed

lemma findValidPosition_Some:
  "findValidPosition s sh rnd k = Inr (Some p, k') \<Longrightarrow> canPlace s p sh = Inr True"
  unfolding findValidPosition_def by (rule findValidPosition_loop_Some)

lemma grows_refl: "wf_board s \<Longrightarrow> grows s s"
  by (simp add: grows_def)

lemma grows_trans: "grows s t \<Longrightarrow> grows t u \<Longrightarrow> grows s u"
  by (simp add: grows_def occupied_def)

lemma occupant_touched: "occupant s c r \<noteq> None \<Longrightarrow> touched s c r"
  by (simp add: touched_def)

lemma place_grows:
  assumes "wf_board s" "canPlace s p sh = Inr True" "placeShip s p sh = Inr s'"
  shows "grows s s'"
proof -
  have g: "\<forall>i < length (hits sh). in_grid (col_at p (int i)) (row_at p (int i))"
    and nt: "\<forall>i < length (hits sh). \<not> touched s (col_at p (int i)) (row_at p (int i))"
    using canPlace_True[OF assms(1,2)] by blast+
  from placeShip_ok[OF assms(1) g] assms(3)
  have wf': "wf_board s'" and b: "board s' = board s" and sp: "spaces s' = spaces s"
    and fr: "fresh s' = fresh s"
    and f: "\<forall>c r. (c, r) \<notin> set (footprint p (length (hits sh))) \<longrightarrow> cell s' c r = cell s c r"
    by auto
  have "\<forall>c r x. cell s c r = Some x \<longrightarrow> occupied s x \<longrightarrow> cell s' c r = Some x"
  proof (intro allI impI)
    fix c r x assume c: "cell s c r = Some x" and o: "occupied s x"
    then have "occupant s c r \<noteq> None" by (simp add: occupant_def occupied_def)
    then have t: "touched s c r" by (rule occupant_touched)
    have "(c, r) \<notin> set (footprint p (length (hits sh)))"
    proof
      assume "(c, r) \<in> set (footprint p (length (hits sh)))"
      then obtain i where "i < length (hits sh)" "(c, r) = (col_at p (int i), row_at p (int i))"
        using footprint_mem by blast
      then show False using nt t by simp
    qed
    then show "cell s' c r = Some x" using f c by simp
  qed
  then show ?thesis using wf' b sp fr by (simp add: grows_def)
qed

lemma autoPlaceShips_loop_grows:
  assumes "wf_board s" "autoPlaceShips_loop s bk ships rnd k = Inr (ok, s', k')"
  shows "\<exists>t. grows s t \<and> s' = (if ok then t else t\<lparr>board := bk\<rparr>)"
  using assms
proof (induction ships arbitrary: s k)
  case Nil
  then show ?case using grows_refl by auto
next
  case (Cons sh ships)
  show ?case
  proof (cases "findValidPosition s sh rnd k")
    case (Inl e)
    then show ?thesis using Cons.prems(2) by simp
  next
    case (Inr res)
    obtain po k1 where res: "res = (po, k1)" by (cases res)
    show ?thesis
    proof (cases po)
      case None
      then have "ok = False" "s' = s\<lparr>board := bk\<rparr>"
        using Cons.prems(2) Inr res by auto
      then show ?thesis using grows_refl[OF Cons.prems(1)] by auto
    next
      case (Some p)
      have cp: "canPlace s p sh = Inr True"
        using findValidPosition_Some[of s sh rnd k p k1] Inr res Some by simp
      show ?thesis
      proof (cases "placeShip s p sh")
        case (Inl e)
        then show ?thesis using Cons.prems(2) Inr res Some by simp
      next
        case (Inr s1)
        have g1: "grows s s1" using place_grows[OF Cons.prems(1) cp Inr] .
        have run: "autoPlaceShips_loop s1 bk ships rnd k1 = Inr (ok, s', k')"
          using Cons.prems(2) \<open>findValidPosition s sh rnd k = Inr res\<close> res Some Inr by simp
        have "wf_board s1" using g1 by (simp add: grows_def)
        from Cons.IH[OF this run] obtain t where "grows s1 t" "s' = (if ok then t else t\<lparr>board := bk\<rparr>)"
          by blast
        then show ?thesis using grows_trans[OF g1] by blast
      qed
    qed
  qed
qed


lemma carrier_fields: "ship_ref carrier = 2" "length (hits carrier) = 16"
  by (simp_all add: carrier_def new_Ship_fields)

lemma fleet_fields:
  "board fleet = board start" "rows fleet = rows start"
  "spaces fleet a =
     (if 226 \<le> a \<and> a < 242 then \<lparr>parent = Some 2, isHit = False\<rparr>
      else if a = 225 then \<lparr>parent = Some 1, isHit = False\<rparr> else \<lparr>parent = None, isHit = False\<rparr>)"
  by (simp_all add: fleet_def new_Ship_fields harbour_fields)

lemmas fleet_defs = patrol_fields fleet_fields getRow_def cell_def row_at_def col_at_def
  occupied_def occupant_def start_def constructor_def new_row_def board_get_def

lemma cell_spread [simp]: "cell (s\<lparr>board := spread (board s)\<rparr>) c r = cell s c r"
  by (simp add: cell_def getRow_def spread_def board_get_def)

lemma autoPlaceShips_too_long:
  assumes "15 < length (hits sh)" "unit_interval rnd"
  shows "autoPlaceShips s [sh] rnd k = Inr (False, s\<lparr>board := spread (board s)\<rparr>, k + 300000)"
proof -
  have "\<forall>j < 100000. canPlace s (attempt rnd k j) sh = Inr False"
    using canPlace_too_long[OF assms(1)] sample_range[OF assms(2)] by (simp add: attempt_def)
  from findValidPosition_loop_none[OF this]
  have "findValidPosition s sh rnd k = Inr (None, k + 300000)"
    unfolding findValidPosition_def maxIterations_def by simp
  then show ?thesis by (simp add: autoPlaceShips_def)
qed

lemma autoPlaceShips_fleet:
  "autoPlaceShips fleet [patrol, carrier] (\<lambda>_. 0) 0
     = Inr (False, (row_write fleet 0 0 225)\<lparr>board := spread (board fleet)\<rparr>, 300003) \<and>
   occupant ((row_write fleet 0 0 225)\<lparr>board := spread (board fleet)\<rparr>) 0 0 = Some 1"
proof -
  let ?p = "\<lparr>col = 0, row = 0, horizontal = True\<rparr>"
  let ?s1 = "row_write fleet 0 0 225"
  have sm: "\<And>k. sample (\<lambda>_. 0) k = ?p" by (simp add: sample_def)
  have c1: "canPlace fleet (sample (\<lambda>_. 0) 0) patrol = Inr True"
    unfolding sm by (simp add: canPlace_defs fleet_defs)
  have f1: "findValidPosition fleet patrol (\<lambda>_. 0) 0 = Inr (Some ?p, 3)"
    unfolding findValidPosition_def maxIterations_def
    using findValidPosition_loop_first[OF c1, of 100000] by (simp add: sm)
  have p1: "placeShip fleet ?p patrol = Inr ?s1"
    by (simp add: placeShip_def fleet_defs)
  have "\<forall>j < 100000. canPlace ?s1 (attempt (\<lambda>_. 0) 3 j) carrier = Inr False"
    by (simp add: attempt_def sm canPlace_too_long carrier_fields)
  from findValidPosition_loop_none[OF this]
  have f2: "findValidPosition ?s1 carrier (\<lambda>_. 0) 3 = Inr (None, 300003)"
    unfolding findValidPosition_def maxIterations_def by simp
  have run: "autoPlaceShips fleet [patrol, carrier] (\<lambda>_. 0) 0
     = Inr (False, ?s1\<lparr>board := spread (board fleet)\<rparr>, 300003)"
    by (simp add: autoPlaceShips_def f1 p1 f2)
  have o1: "occupant (?s1\<lparr>board := spread (board fleet)\<rparr>) 0 0 = Some 1"
    by (simp add: fleet_defs spread_def row_write_def arr_set_def)
  show ?thesis using run o1 by simp
qed

lemma cutter_fields: "ship_ref cutter = 3" "hits cutter = [242, 243]"
  by (simp_all add: cutter_def new_Ship_fields fleet_def harbour_fields upt_rec)

lemma armada_fields:
  "board armada = board start" "rows armada = rows start"
  "spaces armada a =
     (if 242 \<le> a \<and> a < 244 then \<lparr>parent = Some 3, isHit = False\<rparr>
      else if 226 \<le> a \<and> a < 242 then \<lparr>parent = Some 2, isHit = False\<rparr>
      else if a = 225 then \<lparr>parent = Some 1, isHit = False\<rparr> else \<lparr>parent = None, isHit = False\<rparr>)"
  by (simp_all add: armada_def new_Ship_fields fleet_fields) (simp add: fleet_def new_Ship_fields harbour_fields)

lemmas armada_defs = patrol_fields cutter_fields armada_fields getRow_def cell_def row_at_def col_at_def
  occupied_def occupant_def start_def constructor_def new_row_def board_get_def

lemma resetBoard_plain_object_throws: "board s = JSObject m \<Longrightarrow> resetBoard s = Inl TypeError"
  by (simp add: resetBoard_def)

section \<open>Properties of resetBoard\<close>

lemma reset_cell:
  assumes "wf_board s" "board_get (board s) r = Some rr" "0 \<le> c" "c < 15"
  defines "s2 \<equiv> row_write (snd (new_Space None s)) rr c (fst (new_Space None s))"
  shows "wf_board s2" "board s2 = board s" "cleared s2 c r"
    "\<And>c' r'. cleared s c' r' \<Longrightarrow> cleared s2 c' r'"
proof -
  let ?s1 = "snd (new_Space None s)"
  have b1: "board ?s1 = board s" and r1: "rows ?s1 = rows s"
    by (simp_all add: new_Space_def)
  have wf1: "wf_board ?s1" using wf_board_cong[OF b1 r1] assms(1) by simp
  have rr1: "board_get (board ?s1) r = Some rr" using assms(2) b1 by simp
  show "wf_board s2" unfolding s2_def by (rule wf_row_write[OF wf1 rr1 assms(3,4)])
  show "board s2 = board s" unfolding s2_def by (simp add: b1)
  have c2: "\<And>c' r'. cell s2 c' r' = (if c' = c \<and> r' = r then Some (fresh s) else cell ?s1 c' r')"
    unfolding s2_def using cell_row_write[OF wf1 rr1] by (simp add: new_Space_def)
  have c1: "\<And>c' r'. cell ?s1 c' r' = cell s c' r'"
    by (simp add: cell_def getRow_def b1 r1)
  have sp: "spaces s2 = (spaces s)(fresh s := \<lparr>parent = None, isHit = False\<rparr>)"
    and fr: "fresh s2 = fresh s + 1"
    unfolding s2_def by (simp_all add: new_Space_def)
  show "cleared s2 c r" by (simp add: cleared_def c2 sp fr)
  show "\<And>c' r'. cleared s c' r' \<Longrightarrow> cleared s2 c' r'"
  proof -
    fix c' r' assume "cleared s c' r'"
    then obtain x where x: "cell s c' r' = Some x" "x < fresh s"
      "spaces s x = \<lparr>parent = None, isHit = False\<rparr>"
      unfolding cleared_def by blast
    show "cleared s2 c' r'"
    proof (cases "c' = c \<and> r' = r")
      case True
      then show ?thesis by (simp add: cleared_def c2 sp fr)
    next
      case False
      then have "cell s2 c' r' = cell s c' r'" unfolding c2 c1 by auto
      then have "cell s2 c' r' = Some x" using x(1) by simp
      moreover have "spaces s2 x = \<lparr>parent = None, isHit = False\<rparr>" using x(2,3) sp by simp
      ultimately show ?thesis using x(2) fr by (simp add: cleared_def)
    qed
  qed
qed

lemma resetRow_loop_ok:
  assumes "wf_board s" "board_get (board s) i = Some rr" "\<forall>j \<in> set js. j < 15"
  shows "\<exists>s'. resetRow_loop s rr i js = Inr s' \<and> wf_board s' \<and> board s' = board s \<and>
           (\<forall>c r. cleared s c r \<or> (r = i \<and> c \<in> int ` set js) \<longrightarrow> cleared s' c r)"
  using assms
proof (induction js arbitrary: s)
  case Nil
  then show ?case by simp
next
  case (Cons j js)
  have j: "0 \<le> int j" "int j < 15" using Cons.prems(3) by simp_all
  obtain x where x: "elems (rows s rr) (int j) = Some x"
    using wf_col_ex[OF Cons.prems(1,2) j] by blast
  let ?s2 = "row_write (snd (new_Space None s)) rr (int j) (fst (new_Space None s))"
  note rc = reset_cell[OF Cons.prems(1,2) j]
  have step: "resetRow_loop s rr i (j # js) = resetRow_loop ?s2 rr i js"
    using x Cons.prems(2) by (simp add: case_prod_beta)
  have rr2: "board_get (board ?s2) i = Some rr" using rc(2) Cons.prems(2) by simp
  have "\<forall>j \<in> set js. j < 15" using Cons.prems(3) by simp
  from Cons.IH[OF rc(1) rr2 this]
  obtain s' where s': "resetRow_loop ?s2 rr i js = Inr s'" "wf_board s'" "board s' = board ?s2"
    "\<forall>c r. cleared ?s2 c r \<or> (r = i \<and> c \<in> int ` set js) \<longrightarrow> cleared s' c r"
    by blast
  have "\<forall>c r. cleared s c r \<or> (r = i \<and> c \<in> int ` set (j # js)) \<longrightarrow> cleared s' c r"
  proof (intro allI impI)
    fix c r assume h: "cleared s c r \<or> (r = i \<and> c \<in> int ` set (j # js))"
    then consider "cleared s c r" | "r = i \<and> c = int j" | "r = i \<and> c \<in> int ` set js" by auto
    then show "cleared s' c r"
    proof cases
      case 1
      then show ?thesis using rc(4) s'(4) by blast
    next
      case 2
      then show ?thesis using rc(3) s'(4) by blast
    next
      case 3
      then show ?thesis using s'(4) by blast
    qed
  qed
  then show ?case using step s'(1,2,3) rc(2) by simp
qed

lemma resetBoard_loop_ok:
  assumes "wf_board s" "\<forall>i \<in> set is. i < 15"
  shows "\<exists>s'. resetBoard_loop s is = Inr s' \<and> wf_board s' \<and> board s' = board s \<and>
           (\<forall>c r. cleared s c r \<or> (r \<in> int ` set is \<and> 0 \<le> c \<and> c < 15) \<longrightarrow> cleared s' c r)"
  using assms
proof (induction "is" arbitrary: s)
  case Nil
  then show ?case by simp
next
  case (Cons i "is")
  have i: "0 \<le> int i" "int i < 15" using Cons.prems(2) by simp_all
  obtain rr where rr: "board_get (board s) (int i) = Some rr"
    using wf_row_ex[OF Cons.prems(1) i] by blast
  have l: "len (rows s rr) = 15" using wf_row_len[OF Cons.prems(1) rr] .
  have "\<forall>j \<in> set [0..<15]. j < 15" by simp
  from resetRow_loop_ok[OF Cons.prems(1) rr this]
  obtain s1 where s1: "resetRow_loop s rr (int i) [0..<15] = Inr s1" "wf_board s1" "board s1 = board s"
    "\<forall>c r. cleared s c r \<or> (r = int i \<and> c \<in> int ` set [0..<15]) \<longrightarrow> cleared s1 c r"
    by blast
  have step: "resetBoard_loop s (i # is) = resetBoard_loop s1 is"
    using rr l s1(1) by simp
  have "\<forall>i \<in> set is. i < 15" using Cons.prems(2) by simp
  from Cons.IH[OF s1(2) this]
  obtain s' where s': "resetBoard_loop s1 is = Inr s'" "wf_board s'" "board s' = board s1"
    "\<forall>c r. cleared s1 c r \<or> (r \<in> int ` set is \<and> 0 \<le> c \<and> c < 15) \<longrightarrow> cleared s' c r"
    by blast
  have "\<forall>c r. cleared s c r \<or> (r \<in> int ` set (i # is) \<and> 0 \<le> c \<and> c < 15) \<longrightarrow> cleared s' c r"
  proof (intro allI impI)
    fix c r assume h: "cleared s c r \<or> (r \<in> int ` set (i # is) \<and> 0 \<le> c \<and> c < 15)"
    then consider "cleared s c r" | "r = int i \<and> 0 \<le> c \<and> c < 15"
      | "r \<in> int ` set is \<and> 0 \<le> c \<and> c < 15" by auto
    then show "cleared s' c r"
    proof cases
      case 1
      then show ?thesis using s1(4) s'(4) by blast
    next
      case 2
      then have "c \<in> int ` set [0..<15]"
        by (auto simp: image_iff intro!: bexI[of _ "nat c"])
      then show ?thesis using 2 s1(4) s'(4) by blast
    next
      case 3
      then show ?thesis using s'(4) by blast
    qed
  qed
  then show ?case using step s'(1,2,3) s1(3) by simp
qed

lemma resetBoard_ok:
  assumes "wf_board s" "board s = JSArray a"
  shows "\<exists>s'. resetBoard s = Inr s' \<and> wf_board s' \<and> board s' = board s \<and>
           (\<forall>c r. in_grid c r \<longrightarrow> cleared s' c r)"
proof -
  have l: "len a = 15" using assms unfolding wf_board_def by simp
  have "\<forall>i \<in> set [0..<15]. i < 15" by simp
  from resetBoard_loop_ok[OF assms(1) this]
  obtain s' where s': "resetBoard_loop s [0..<15] = Inr s'" "wf_board s'" "board s' = board s"
    "\<forall>c r. cleared s c r \<or> (r \<in> int ` set [0..<15] \<and> 0 \<le> c \<and> c < 15) \<longrightarrow> cleared s' c r"
    by blast
  have "\<forall>c r. in_grid c r \<longrightarrow> cleared s' c r"
  proof (intro allI impI)
    fix c r assume g: "in_grid c r"
    then have "r \<in> int ` set [0..<15]"
      by (auto simp: in_grid_def image_iff intro!: bexI[of _ "nat r"])
    then show "cleared s' c r" using g s'(4) by (simp add: in_grid_def)
  qed
  then show ?thesis using s'(1,2,3) assms(2) l by (simp add: resetBoard_def)
qed

section \<open>Invariants of sequences of operations\<close>

lemma receiveAttack_Inr:
  assumes "receiveAttack s c r = Inr (res, s')"
  shows "\<exists>x. cell s c r = Some x \<and> s' = hit x s \<and> res = parent (spaces s x)"
proof (cases "cell s c r")
  case None
  then have "receiveAttack s c r = Inl TypeError"
    by (auto simp: receiveAttack_def cell_def split: option.splits)
  then show ?thesis using assms by simp
next
  case (Some x)
  then show ?thesis using receiveAttack_eq[OF Some] assms by simp
qed

lemma wf_spread: "wf_board s \<Longrightarrow> wf_board (s\<lparr>board := spread (board s)\<rparr>)"
  by (simp add: wf_board_def spread_def board_get_def)

lemma autoPlaceShips_grows:
  assumes "wf_board s" "autoPlaceShips s ships rnd k = Inr (ok, s', k')"
  shows "\<exists>t. grows s t \<and> s' = (if ok then t else t\<lparr>board := spread (board t)\<rparr>)"
proof -
  from autoPlaceShips_loop_grows[OF assms(1) assms(2)[unfolded autoPlaceShips_def]]
  obtain t where t: "grows s t" "s' = (if ok then t else t\<lparr>board := spread (board s)\<rparr>)"
    by blast
  have "board t = board s" using t(1) by (simp add: grows_def)
  then show ?thesis using t by auto
qed

lemma reachable_shape: "reachable s \<Longrightarrow> wf_board s \<and> (\<exists>a. board s = JSArray a)"
proof (induction rule: reachable.induct)
  case (init h f)
  show ?case using wf_constructor[of h f] by (simp add: constructor_def)
next
  case (ship s r n)
  then show ?case by (simp add: wf_new_Ship new_Ship_fields)
next
  case (place s p sh s')
  then have "grows s s'" using place_grows by blast
  then show ?case using place.IH by (simp add: grows_def)
next
  case (place_within s sh p s')
  then have wf: "wf_board s" by blast
  from placeShip_ok[OF wf place_within.hyps(2)] place_within.hyps(3)
  have "wf_board s'" "board s' = board s" by auto
  then show ?case using place_within.IH by simp
next
  case (attack s c r res s')
  then obtain x where "s' = hit x s" using receiveAttack_Inr by blast
  then show ?case using attack.IH by simp
next
  case (auto s ships rnd k s' k')
  then obtain t where "grows s t" "s' = t" using autoPlaceShips_grows[of s ships rnd k True s' k'] by auto
  then show ?case using auto.IH by (simp add: grows_def)
next
  case (reset s s')
  then obtain a where a: "wf_board s" "board s = JSArray a" by blast
  from resetBoard_ok[OF a] reset.hyps(2) show ?case using a(2) by auto
qed

lemma cleared_queries:
  assumes "cleared s c r"
  shows "occupant s c r = None" "checkHit s c r = Inr False"
    "\<exists>s'. receiveAttack s c r = Inr (None, s')"
proof -
  from assms obtain x where x: "cell s c r = Some x" "spaces s x = \<lparr>parent = None, isHit = False\<rparr>"
    unfolding cleared_def by blast
  show "occupant s c r = None" using x by (simp add: occupant_def)
  show "checkHit s c r = Inr False" using checkHit_eq[OF x(1)] x(2) by simp
  show "\<exists>s'. receiveAttack s c r = Inr (None, s')" using receiveAttack_eq[OF x(1)] x(2) by simp
qed

lemma op_step_keeps:
  assumes "op_step s s'" "wf_board s" "cell s c r = Some x" "parent (spaces s x) = Some v"
  shows "wf_board s' \<and> cell s' c r = Some x \<and> parent (spaces s' x) = Some v"
  using assms
proof (induction rule: op_step.induct)
  case (place s p sh s')
  then have "grows s s'" using place_grows by blast
  then show ?case using place.prems by (simp add: grows_def occupied_def)
next
  case (attack s c' r' res s')
  then obtain y where "s' = hit y s" using receiveAttack_Inr by blast
  then show ?case using attack.prems by simp
next
  case (auto s ships rnd k ok s' k')
  from autoPlaceShips_grows[OF auto.prems(1) auto.hyps]
  obtain t where t: "grows s t" "s' = (if ok then t else t\<lparr>board := spread (board t)\<rparr>)" by blast
  have k: "wf_board t \<and> cell t c r = Some x \<and> parent (spaces t x) = Some v"
    using t(1) auto.prems by (simp add: grows_def occupied_def)
  show ?case
  proof (cases ok)
    case True
    then show ?thesis using t(2) k by simp
  next
    case False
    then show ?thesis using t(2) k wf_spread[of t] by simp
  qed
qed

lemma op_steps_keep:
  assumes "rtranclp op_step s s'" "wf_board s" "cell s c r = Some x" "parent (spaces s x) = Some v"
  shows "wf_board s' \<and> cell s' c r = Some x \<and> parent (spaces s' x) = Some v"
  using assms
proof (induction rule: rtranclp_induct)
  case base
  then show ?case by simp
next
  case (step t u)
  then have "wf_board t \<and> cell t c r = Some x \<and> parent (spaces t x) = Some v" by blast
  then show ?case using op_step_keeps[OF step.hyps(2)] by blast
qed

lemma resetBoard_clears_reachable:
  assumes "reachable s"
  shows "\<exists>s'. resetBoard s = Inr s' \<and>
           (\<forall>c r. in_grid c r \<longrightarrow>
              occupant s' c r = None \<and> checkHit s' c r = Inr False \<and>
              (\<exists>s''. receiveAttack s' c r = Inr (None, s'')))"
proof -
  from reachable_shape[OF assms] obtain a where a: "wf_board s" "board s = JSArray a" by blast
  from resetBoard_ok[OF a] obtain s' where s': "resetBoard s = Inr s'"
    "\<forall>c r. in_grid c r \<longrightarrow> cleared s' c r" by blast
  show ?thesis using s' cleared_queries by blast
qed

section \<open>The claims of the specification\<close>

text \<open>
  C2. On every well-formed board, for every position with \<open>0 \<le> col\<close> and \<open>0 \<le> row\<close> and
  every ship, \<^verbatim>\<open>canPlace\<close> returns true if and only if the last cell of the footprint is
  at most 14 in both axes, no cell of the footprint has an occupant, and no neighbour
  inside the grid of a cell of the footprint has an occupant.
\<close>

theorem canPlace_iff_spec:
  assumes "wf_board s" "0 \<le> col p" "0 \<le> row p"
  shows "canPlace s p sh = Inr (canPlace_spec s p (length (hits sh)))"
  using assms by (rule canPlace_eq)

theorem canPlace_iff_spec_witness:
  "wf_board start \<and>
   canPlace start \<lparr>col = 13, row = 4, horizontal = True\<rparr> \<lparr>ship_ref = 1, hits = [225, 226]\<rparr> = Inr True \<and>
   canPlace_spec start \<lparr>col = 13, row = 4, horizontal = True\<rparr> 2 \<and>
   \<not> canPlace_spec start \<lparr>col = 14, row = 4, horizontal = True\<rparr> 2"
proof -
  have e: "canPlace start \<lparr>col = 13, row = 4, horizontal = True\<rparr> \<lparr>ship_ref = 1, hits = [225, 226]\<rparr> = Inr True"
    by (simp add: grid_defs canPlace_defs upt_rec)
  have f: "canPlace start \<lparr>col = 14, row = 4, horizontal = True\<rparr> \<lparr>ship_ref = 1, hits = [225, 226]\<rparr> = Inr False"
    by (simp add: grid_defs canPlace_defs upt_rec)
  have "canPlace start \<lparr>col = 13, row = 4, horizontal = True\<rparr> \<lparr>ship_ref = 1, hits = [225, 226]\<rparr>
      = Inr (canPlace_spec start \<lparr>col = 13, row = 4, horizontal = True\<rparr> 2)"
    using canPlace_iff_spec[OF wf_start, of "\<lparr>col = 13, row = 4, horizontal = True\<rparr>"
        "\<lparr>ship_ref = 1, hits = [225, 226]\<rparr>"] by (simp add: numeral_2_eq_2)
  moreover have "canPlace start \<lparr>col = 14, row = 4, horizontal = True\<rparr> \<lparr>ship_ref = 1, hits = [225, 226]\<rparr>
      = Inr (canPlace_spec start \<lparr>col = 14, row = 4, horizontal = True\<rparr> 2)"
    using canPlace_iff_spec[OF wf_start, of "\<lparr>col = 14, row = 4, horizontal = True\<rparr>"
        "\<lparr>ship_ref = 1, hits = [225, 226]\<rparr>"] by (simp add: numeral_2_eq_2)
  ultimately show ?thesis using e f wf_start by simp
qed

text \<open>
  C3. \<^verbatim>\<open>canPlace\<close> is meant to answer every position with a boolean. Its bounds check
  has no lower bound: on a new board, the position with column \<open>-1\<close> and row 0 and a
  ship of length 1 reads \<^verbatim>\<open>board[0][-1].parent\<close>, which throws a TypeError.
\<close>

theorem canPlace_negative_origin_throws:
  "canPlace harbour \<lparr>col = - 1, row = 0, horizontal = True\<rparr> patrol = Inl TypeError"
  by (simp add: canPlace_defs harbour_defs)

text \<open>
  C4. After a placement that \<^verbatim>\<open>canPlace\<close> allowed, \<^verbatim>\<open>canPlace\<close> is meant to return false for
  every position whose footprint overlaps or touches the ship. It does for every
  position whose origin has non-negative indices (lemma \<open>place_then_blocked\<close>). With a
  negative origin it throws, by the missing lower bound of C3: with the ship of length
  1 placed at column 0 and row 0, the horizontal position at column \<open>-1\<close> and row 0 of
  a ship of length 2 covers the occupied cell, and \<^verbatim>\<open>canPlace\<close> throws a TypeError.
\<close>

theorem canPlace_throws_on_overlap_at_negative_origin:
  "canPlace armada \<lparr>col = 0, row = 0, horizontal = True\<rparr> patrol = Inr True \<and>
   placeShip armada \<lparr>col = 0, row = 0, horizontal = True\<rparr> patrol = Inr (row_write armada 0 0 225) \<and>
   (0, 0) \<in> set (footprint \<lparr>col = 0, row = 0, horizontal = True\<rparr> (length (hits patrol))) \<and>
   (0, 0) \<in> set (footprint \<lparr>col = - 1, row = 0, horizontal = True\<rparr> (length (hits cutter))) \<and>
   canPlace (row_write armada 0 0 225) \<lparr>col = - 1, row = 0, horizontal = True\<rparr> cutter
     = Inl TypeError"
proof -
  have c: "canPlace armada \<lparr>col = 0, row = 0, horizontal = True\<rparr> patrol = Inr True"
    by (simp add: canPlace_defs armada_defs)
  have p: "placeShip armada \<lparr>col = 0, row = 0, horizontal = True\<rparr> patrol = Inr (row_write armada 0 0 225)"
    by (simp add: placeShip_def armada_defs)
  have a: "(0, 0) \<in> set (footprint \<lparr>col = 0, row = 0, horizontal = True\<rparr> (length (hits patrol)))"
    by (simp add: footprint_def armada_defs)
  have b: "(0, 0) \<in> set (footprint \<lparr>col = - 1, row = 0, horizontal = True\<rparr> (length (hits cutter)))"
    by (simp add: footprint_def armada_defs upt_rec)
  have t: "canPlace (row_write armada 0 0 225) \<lparr>col = - 1, row = 0, horizontal = True\<rparr> cutter
     = Inl TypeError"
    by (simp add: canPlace_defs armada_defs row_write_def arr_set_def upt_rec)
  show ?thesis using c p a b t by simp
qed

text \<open>
  C5. On a well-formed board, when all target cells are inside the grid, \<^verbatim>\<open>placeShip\<close>
  succeeds and, for each index \<open>i\<close> below the ship's length, the cell at column
  \<open>col + i * horizontal\<close> and row \<open>row + i * (1 - horizontal)\<close> holds the ship's
  \<open>i\<close>-th segment, so that its occupant is that segment's owner. The segments
  themselves and all other cells are unchanged. The operation returns nothing but the
  updated board.
\<close>

theorem placeShip_assigns_segments:
  assumes "wf_board s"
    and "\<forall>i < length (hits sh).
           in_grid (col p + int i * of_bool (horizontal p)) (row p + int i * (1 - of_bool (horizontal p)))"
  shows "\<exists>s'. placeShip s p sh = Inr s' \<and>
           (\<forall>i < length (hits sh).
              cell s' (col p + int i * of_bool (horizontal p)) (row p + int i * (1 - of_bool (horizontal p)))
                = Some (hits sh ! i) \<and>
              occupant s' (col p + int i * of_bool (horizontal p)) (row p + int i * (1 - of_bool (horizontal p)))
                = parent (spaces s (hits sh ! i))) \<and>
           spaces s' = spaces s \<and>
           (\<forall>c r. (c, r) \<notin> set (footprint p (length (hits sh))) \<longrightarrow> cell s' c r = cell s c r)"
proof -
  have e: "\<And>i. col p + int i * of_bool (horizontal p) = col_at p (int i)"
    "\<And>i. row p + int i * (1 - of_bool (horizontal p)) = row_at p (int i)"
    by (simp_all add: col_at_def row_at_def)
  show ?thesis
    using placeShip_ok[OF assms(1), of sh p] assms(2) unfolding e
    by (auto simp: occupant_def)
qed

theorem placeShip_assigns_segments_witness:
  "wf_board harbour \<and> length (hits patrol) = 1 \<and> in_grid 3 4 \<and>
   (\<exists>s'. placeShip harbour \<lparr>col = 3, row = 4, horizontal = False\<rparr> patrol = Inr s' \<and>
      cell s' 3 4 = Some 225 \<and> occupant s' 3 4 = Some 1)"
proof -
  have g: "\<forall>i < length (hits \<lparr>ship_ref = 1, hits = [225]\<rparr>).
      in_grid (col \<lparr>col = 3, row = 4, horizontal = False\<rparr>
                 + int i * of_bool (horizontal \<lparr>col = 3, row = 4, horizontal = False\<rparr>))
              (row \<lparr>col = 3, row = 4, horizontal = False\<rparr>
                 + int i * (1 - of_bool (horizontal \<lparr>col = 3, row = 4, horizontal = False\<rparr>)))"
    by (simp add: in_grid_def)
  have pe: "patrol = \<lparr>ship_ref = 1, hits = [225]\<rparr>"
    by (simp add: patrol_fields)
  show ?thesis
    using placeShip_assigns_segments[OF wf_harbour g] wf_harbour
    by (auto simp: pe in_grid_def harbour_fields)
qed

text \<open>
  C6. On a well-formed board and for every cell inside the grid, \<^verbatim>\<open>receiveAttack\<close>
  returns the occupant of the cell (none for an empty cell, the ship for an occupied
  one); afterwards \<^verbatim>\<open>checkHit\<close> is true, and a second \<^verbatim>\<open>receiveAttack\<close> returns the
  same occupant and leaves the board as the first one left it.
\<close>

theorem receiveAttack_idempotent:
  assumes "wf_board s" "in_grid c r"
  shows "\<exists>s1. receiveAttack s c r = Inr (occupant s c r, s1) \<and> checkHit s1 c r = Inr True \<and>
           receiveAttack s1 c r = Inr (occupant s c r, s1)"
  using receiveAttack_twice[OF assms] by blast

theorem receiveAttack_idempotent_witness:
  "wf_board harbour \<and> in_grid 2 5 \<and> occupant harbour 2 5 = None \<and>
   (\<exists>s1. receiveAttack harbour 2 5 = Inr (None, s1) \<and> checkHit s1 2 5 = Inr True \<and>
      receiveAttack s1 2 5 = Inr (None, s1))"
proof -
  have g: "in_grid 2 5" by (simp add: in_grid_def)
  have o: "occupant harbour 2 5 = None" by (simp add: harbour_defs)
  show ?thesis
    using receiveAttack_idempotent[OF wf_harbour g] wf_harbour g o by simp
qed

text \<open>
  C10. \<^verbatim>\<open>placeShip\<close> replaces the target cells by the ship's segments: after a ship
  with no hit segment is placed inside the grid of a well-formed board, \<^verbatim>\<open>checkHit\<close>
  is false at every cell of its footprint, whatever hit marks those cells had before.
\<close>

theorem placeShip_discards_hit_mark:
  assumes "wf_board s"
    "\<forall>i < length (hits sh). in_grid (col_at p (int i)) (row_at p (int i))"
    "unhit s sh" "placeShip s p sh = Inr s'" "(c, r) \<in> set (footprint p (length (hits sh)))"
  shows "checkHit s' c r = Inr False"
proof -
  from assms(5) obtain i where i: "i < length (hits sh)" "c = col_at p (int i)" "r = row_at p (int i)"
    using footprint_mem by auto
  have "\<not> isHit (spaces s (hits sh ! i))" using assms(3) i(1) by (simp add: unhit_def)
  then show ?thesis using placeShip_checkHit[OF assms(1,2,4) i(1)] i(2,3) by simp
qed

theorem placeShip_discards_hit_mark_witness:
  "wf_board (hit 0 harbour) \<and> unhit (hit 0 harbour) patrol \<and>
   receiveAttack harbour 0 0 = Inr (None, hit 0 harbour) \<and>
   checkHit (hit 0 harbour) 0 0 = Inr True \<and> occupant (hit 0 harbour) 0 0 = None \<and>
   placeShip (hit 0 harbour) \<lparr>col = 0, row = 0, horizontal = True\<rparr> patrol
     = Inr (row_write (hit 0 harbour) 0 0 225) \<and>
   (0, 0) \<in> set (footprint \<lparr>col = 0, row = 0, horizontal = True\<rparr> (length (hits patrol))) \<and>
   checkHit (row_write (hit 0 harbour) 0 0 225) 0 0 = Inr False"
proof -
  have w: "wf_board (hit 0 harbour)" using wf_harbour by simp
  have c0: "cell harbour 0 0 = Some 0" by (simp add: harbour_defs)
  have u: "unhit (hit 0 harbour) patrol" by (simp add: unhit_def harbour_defs)
  have ra: "receiveAttack harbour 0 0 = Inr (None, hit 0 harbour)"
    using receiveAttack_eq[OF c0] by (simp add: harbour_fields)
  have ch: "checkHit (hit 0 harbour) 0 0 = Inr True"
    using checkHit_eq[of "hit 0 harbour" 0 0 0] c0 by simp
  have oc: "occupant (hit 0 harbour) 0 0 = None" by (simp add: harbour_defs)
  have g: "\<forall>i < length (hits patrol).
      in_grid (col_at \<lparr>col = 0, row = 0, horizontal = True\<rparr> (int i))
              (row_at \<lparr>col = 0, row = 0, horizontal = True\<rparr> (int i))"
    by (simp add: in_grid_def harbour_defs)
  have p: "placeShip (hit 0 harbour) \<lparr>col = 0, row = 0, horizontal = True\<rparr> patrol
     = Inr (row_write (hit 0 harbour) 0 0 225)"
    by (simp add: placeShip_def harbour_defs)
  have f: "(0, 0) \<in> set (footprint \<lparr>col = 0, row = 0, horizontal = True\<rparr> (length (hits patrol)))"
    by (simp add: footprint_def harbour_defs)
  have "checkHit (row_write (hit 0 harbour) 0 0 225) 0 0 = Inr False"
    using placeShip_discards_hit_mark[OF w g u p f] .
  then show ?thesis using w u ra ch oc p f by simp
qed

text \<open>
  C7. On a well-formed board and with a random source of binary64 values that are at
  least 0 and less than 1, every attempt of \<^verbatim>\<open>findValidPosition\<close> samples a column and a
  row in [0, 15), the rounding of the product included. The search returns the first
  of at most 100,000 attempts for which \<^verbatim>\<open>canPlace\<close> is true (all earlier attempts were
  false), or null after 100,000 attempts that were all false; it never throws.
\<close>

theorem findValidPosition_first_valid:
  assumes "wf_board s" "unit_interval rnd"
  shows "(\<forall>j. in_grid (col (attempt rnd k j)) (row (attempt rnd k j))) \<and>
         ((\<exists>j < 100000.
             findValidPosition s sh rnd k = Inr (Some (attempt rnd k j), k + 3 * j + 3) \<and>
             canPlace s (attempt rnd k j) sh = Inr True \<and>
             (\<forall>i < j. canPlace s (attempt rnd k i) sh = Inr False)) \<or>
          (findValidPosition s sh rnd k = Inr (None, k + 300000) \<and>
             (\<forall>i < 100000. canPlace s (attempt rnd k i) sh = Inr False)))"
  using findValidPosition_cases[OF assms, of sh k] sample_range[OF assms(2)]
  by (simp add: in_grid_def attempt_def)

theorem findValidPosition_first_valid_witness:
  "wf_board harbour \<and> unit_interval (\<lambda>_. six_tenths) \<and>
   findValidPosition harbour patrol (\<lambda>_. six_tenths) 0
     = Inr (Some \<lparr>col = 9, row = 9, horizontal = False\<rparr>, 3)"
proof -
  let ?p = "\<lparr>col = 9, row = 9, horizontal = False\<rparr>"
  let ?r = "\<lambda>_::nat. six_tenths"
  have u: "unit_interval ?r" by (rule unit_interval_six_tenths)
  have a: "\<And>j. attempt ?r 0 j = ?p" by (simp add: attempt_def sample_six_tenths)
  have c: "canPlace harbour ?p patrol = Inr True"
    by (simp add: canPlace_defs harbour_defs)
  have "(\<exists>j < 100000.
             findValidPosition harbour patrol ?r 0 = Inr (Some ?p, 0 + 3 * j + 3) \<and>
             canPlace harbour ?p patrol = Inr True \<and>
             (\<forall>i < j. canPlace harbour ?p patrol = Inr False)) \<or>
          (findValidPosition harbour patrol ?r 0 = Inr (None, 0 + 300000) \<and>
             (\<forall>i < (100000::nat). canPlace harbour ?p patrol = Inr False))"
    using findValidPosition_first_valid[OF wf_harbour u, of 0 patrol] unfolding a by blast
  then have "\<exists>j < 100000.
             findValidPosition harbour patrol ?r 0 = Inr (Some ?p, 0 + 3 * j + 3) \<and>
             (\<forall>i < j. False)"
    unfolding c by (auto dest: spec[of _ "0::nat"])
  then obtain j where j: "findValidPosition harbour patrol ?r 0 = Inr (Some ?p, 0 + 3 * j + 3)"
    "\<forall>i < j. False" by blast
  from j(2) have "j = 0" by (cases j) auto
  then show ?thesis using j(1) wf_harbour u by simp
qed

text \<open>
  C1. \<^verbatim>\<open>autoPlaceShips\<close> is meant to restore the board when a ship cannot be placed.
  Its backup \<^verbatim>\<open>{ ...this.board }\<close> shares the row arrays with the board, so the
  placements made before the failure stay: on a new board, with a ship of length 1
  followed by a ship of length 16 and a random source that always returns 0, the call
  returns false and the cell at column 0 and row 0, empty before the call, is occupied
  by the first ship afterwards.
\<close>

theorem autoPlaceShips_keeps_placed_ship:
  "occupant fleet 0 0 = None \<and>
   autoPlaceShips fleet [patrol, carrier] (\<lambda>_. 0) 0
     = Inr (False, (row_write fleet 0 0 225)\<lparr>board := spread (board fleet)\<rparr>, 300003) \<and>
   occupant ((row_write fleet 0 0 225)\<lparr>board := spread (board fleet)\<rparr>) 0 0 = Some 1"
proof -
  have "occupant fleet 0 0 = None" by (simp add: fleet_defs)
  then show ?thesis using autoPlaceShips_fleet by simp
qed

text \<open>
  C8. \<^verbatim>\<open>resetBoard\<close> is meant to clear every board that placements and attacks lead to.
  It does while the container is the array of the constructor (lemma
  \<open>resetBoard_clears_reachable\<close>). A failed \<^verbatim>\<open>autoPlaceShips\<close> leaves \<^verbatim>\<open>this.board\<close> the
  plain object of its backup, which has no \<^verbatim>\<open>forEach\<close>: after the call of C1,
  \<^verbatim>\<open>resetBoard\<close> throws a TypeError and the cell at column 0 and row 0 stays occupied.
\<close>

theorem resetBoard_throws_after_failed_autoPlaceShips:
  "autoPlaceShips fleet [patrol, carrier] (\<lambda>_. 0) 0
     = Inr (False, (row_write fleet 0 0 225)\<lparr>board := spread (board fleet)\<rparr>, 300003) \<and>
   occupant ((row_write fleet 0 0 225)\<lparr>board := spread (board fleet)\<rparr>) 0 0 = Some 1 \<and>
   resetBoard ((row_write fleet 0 0 225)\<lparr>board := spread (board fleet)\<rparr>) = Inl TypeError"
proof -
  have "resetBoard ((row_write fleet 0 0 225)\<lparr>board := spread (board fleet)\<rparr>) = Inl TypeError"
    by (rule resetBoard_plain_object_throws[of _ "board_get (board fleet)"]) (simp add: spread_def)
  then show ?thesis using autoPlaceShips_fleet by simp
qed

text \<open>
  C9. After a placement that \<^verbatim>\<open>canPlace\<close> allows, each cell of the ship holds the ship's
  own segment, and it still does after any sequence of placements allowed by
  \<^verbatim>\<open>canPlace\<close>, attacks and calls of \<^verbatim>\<open>autoPlaceShips\<close>. An attack on such a cell
  therefore returns the ship and marks the ship's own segment as hit.
\<close>

theorem placed_cell_is_segment:
  assumes "wf_board s" "segments_owned s sh" "canPlace s p sh = Inr True"
    "placeShip s p sh = Inr s1" "rtranclp op_step s1 s2" "i < length (hits sh)"
  shows "cell s2 (col_at p (int i)) (row_at p (int i)) = Some (hits sh ! i) \<and>
         receiveAttack s2 (col_at p (int i)) (row_at p (int i))
           = Inr (Some (ship_ref sh), hit (hits sh ! i) s2) \<and>
         isHit (spaces (hit (hits sh ! i) s2) (hits sh ! i))"
proof -
  have g: "\<forall>i < length (hits sh). in_grid (col_at p (int i)) (row_at p (int i))"
    using canPlace_True[OF assms(1,3)] by blast
  from placeShip_ok[OF assms(1) g] assms(4)
  have wf1: "wf_board s1" and sp: "spaces s1 = spaces s"
    and w: "\<forall>i < length (hits sh). cell s1 (col_at p (int i)) (row_at p (int i)) = Some (hits sh ! i)"
    by auto
  have c1: "cell s1 (col_at p (int i)) (row_at p (int i)) = Some (hits sh ! i)"
    using w assms(6) by blast
  have p1: "parent (spaces s1 (hits sh ! i)) = Some (ship_ref sh)"
    using assms(2,6) sp by (simp add: segments_owned_def)
  from op_steps_keep[OF assms(5) wf1 c1 p1]
  have c2: "cell s2 (col_at p (int i)) (row_at p (int i)) = Some (hits sh ! i)"
    and p2: "parent (spaces s2 (hits sh ! i)) = Some (ship_ref sh)" by blast+
  show ?thesis using c2 receiveAttack_eq[OF c2] p2 by simp
qed

theorem placed_cell_is_segment_witness:
  "wf_board fleet \<and> segments_owned fleet patrol \<and>
   canPlace fleet \<lparr>col = 0, row = 0, horizontal = True\<rparr> patrol = Inr True \<and>
   placeShip fleet \<lparr>col = 0, row = 0, horizontal = True\<rparr> patrol = Inr (row_write fleet 0 0 225) \<and>
   autoPlaceShips (row_write fleet 0 0 225) [carrier] (\<lambda>_. 0) 0
     = Inr (False, (row_write fleet 0 0 225)\<lparr>board := spread (board (row_write fleet 0 0 225))\<rparr>, 300000) \<and>
   cell ((row_write fleet 0 0 225)\<lparr>board := spread (board (row_write fleet 0 0 225))\<rparr>) 0 0 = Some 225 \<and>
   receiveAttack ((row_write fleet 0 0 225)\<lparr>board := spread (board (row_write fleet 0 0 225))\<rparr>) 0 0
     = Inr (Some 1, hit 225 ((row_write fleet 0 0 225)\<lparr>board := spread (board (row_write fleet 0 0 225))\<rparr>))"
proof -
  let ?p = "\<lparr>col = 0, row = 0, horizontal = True\<rparr>"
  let ?s1 = "row_write fleet 0 0 225"
  let ?s2 = "?s1\<lparr>board := spread (board ?s1)\<rparr>"
  have wf: "wf_board fleet"
    unfolding fleet_def by (simp add: wf_new_Ship wf_harbour)
  have o: "segments_owned fleet patrol"
    by (simp add: segments_owned_def fleet_defs)
  have c: "canPlace fleet ?p patrol = Inr True"
    by (simp add: canPlace_defs fleet_defs)
  have p: "placeShip fleet ?p patrol = Inr ?s1"
    by (simp add: placeShip_def fleet_defs)
  have u: "unit_interval (\<lambda>_. 0)" by (rule unit_interval_zero)
  have l: "15 < length (hits carrier)" by (simp add: carrier_fields)
  have a: "autoPlaceShips ?s1 [carrier] (\<lambda>_. 0) 0 = Inr (False, ?s2, 300000)"
    using autoPlaceShips_too_long[OF l u, of ?s1 0] by simp
  have "op_step ?s1 ?s2" using a by (rule op_step.auto)
  then have st: "rtranclp op_step ?s1 ?s2" by (rule r_into_rtranclp)
  have i: "0 < length (hits patrol)" by (simp add: patrol_fields)
  show ?thesis
    using placed_cell_is_segment[OF wf o c p st i] wf o c p a
    by (simp add: patrol_fields col_at_def row_at_def)
qed

end
